theory Spec2Isabelle
  imports Main "HOL-Library.AList" "HOL-Library.Multiset"
begin

section \<open>Python strings\<close>

text \<open>
  A Python \<open>str\<close> is modelled as a \<open>string\<close>, a list of 8-bit characters read as the code
  points below 256. The functions of this section are the string operations the repository
  calls: \<open>s.startswith(p)\<close>, \<open>p in s\<close>, \<open>s.split(sep)\<close>, \<open>sep.join(xs)\<close>, \<open>s.strip()\<close>,
  \<open>c.isalnum()\<close> and \<open>str(n)\<close>.
\<close>

definition startswith :: "string \<Rightarrow> string \<Rightarrow> bool" where
  "startswith s p = (take (length p) s = p)"

text \<open>\<open>p in s\<close>: \<open>p\<close> occurs in \<open>s\<close> as a contiguous substring.\<close>

fun contains :: "string \<Rightarrow> string \<Rightarrow> bool" where
  "contains [] p = (p = [])"
| "contains (c # cs) p = (startswith (c # cs) p \<or> contains cs p)"

text \<open>
  \<open>s.split(sep)\<close> for a separator \<open>h # t\<close> (Python raises ValueError on an empty separator;
  every separator in the repository is a non-empty literal). The scan goes left to right and
  takes non-overlapping occurrences; \<open>cur\<close> is the piece read so far.
\<close>

function split_from :: "char \<Rightarrow> string \<Rightarrow> string \<Rightarrow> string \<Rightarrow> string list" where
  "split_from h t cur [] = [cur]"
| "split_from h t cur (c # cs) =
     (if c = h \<and> startswith cs t then cur # split_from h t [] (drop (length t) cs)
      else split_from h t (cur @ [c]) cs)"
  by pat_completeness auto
termination
  by (relation "measure (\<lambda>(h, t, cur, s). length s)") auto

definition str_split :: "string \<Rightarrow> string \<Rightarrow> string list" where
  "str_split s sep = split_from (hd sep) (tl sep) [] s"

fun str_join :: "string \<Rightarrow> string list \<Rightarrow> string" where
  "str_join sep [] = []"
| "str_join sep [x] = x"
| "str_join sep (x # y # ys) = x @ sep @ str_join sep (y # ys)"

text \<open>\<open>c.isspace()\<close> and \<open>c.isalnum()\<close> on the code points below 256.\<close>

definition isspace :: "char \<Rightarrow> bool" where
  "isspace c = (let n = (of_char c :: nat) in
     (9 \<le> n \<and> n \<le> 13) \<or> (28 \<le> n \<and> n \<le> 32) \<or> n = 133 \<or> n = 160)"

definition isalnum :: "char \<Rightarrow> bool" where
  "isalnum c = (let n = (of_char c :: nat) in
     (48 \<le> n \<and> n \<le> 57) \<or> (65 \<le> n \<and> n \<le> 90) \<or> (97 \<le> n \<and> n \<le> 122) \<or>
     n = 170 \<or> n = 178 \<or> n = 179 \<or> n = 181 \<or> n = 185 \<or> n = 186 \<or>
     (188 \<le> n \<and> n \<le> 190) \<or> (192 \<le> n \<and> n \<le> 214) \<or> (216 \<le> n \<and> n \<le> 246) \<or>
     (248 \<le> n \<and> n \<le> 255))"

definition strip :: "string \<Rightarrow> string" where
  "strip s = rev (dropWhile isspace (rev (dropWhile isspace s)))"

text \<open>\<open>str(n)\<close> for an integer: decimal digits, with a minus sign below zero.\<close>

definition digit_char :: "nat \<Rightarrow> char" where
  "digit_char d = ''0123456789'' ! d"

fun str_nat :: "nat \<Rightarrow> string" where
  "str_nat n = (if n < 10 then [digit_char n] else str_nat (n div 10) @ [digit_char (n mod 10)])"

declare str_nat.simps [simp del]

definition str_int :: "int \<Rightarrow> string" where
  "str_int i = (if i < 0 then CHR ''-'' # str_nat (nat (- i)) else str_nat (nat i))"

section \<open>Regular expressions of the URL patterns\<close>

text \<open>
  The patterns of \<open>URLParser.PATTERNS\<close> use literals, character classes, concatenation,
  alternation, the greedy \<open>?\<close>, \<open>+\<close> and \<open>{n}\<close> on a class, the lazy \<open>*?\<close> on a class, and one
  capturing group. \<open>rx_match r s\<close> lists every way \<open>r\<close> matches a prefix of \<open>s\<close>, in the order
  in which Python's backtracking matcher tries them, as pairs of the unread rest of \<open>s\<close> and the
  text captured by the group (\<open>None\<close> when the group took no part).
\<close>

datatype rx =
    Lit string
  | Cls "char \<Rightarrow> bool"
  | Seq rx rx
  | Alt rx rx
  | Opt rx
  | Plus "char \<Rightarrow> bool"
  | Times nat "char \<Rightarrow> bool"
  | LazyStar "char \<Rightarrow> bool"
  | Grp rx

fun rx_match :: "rx \<Rightarrow> string \<Rightarrow> (string \<times> string option) list" where
  "rx_match (Lit p) s = (if startswith s p then [(drop (length p) s, None)] else [])"
| "rx_match (Cls P) s = (case s of [] \<Rightarrow> [] | c # cs \<Rightarrow> if P c then [(cs, None)] else [])"
| "rx_match (Seq r1 r2) s =
     concat (map (\<lambda>m1. map (\<lambda>m2. (fst m2, case snd m2 of None \<Rightarrow> snd m1 | Some g \<Rightarrow> Some g))
                              (rx_match r2 (fst m1)))
                 (rx_match r1 s))"
| "rx_match (Alt r1 r2) s = rx_match r1 s @ rx_match r2 s"
| "rx_match (Opt r) s = rx_match r s @ [(s, None)]"
| "rx_match (Plus P) s =
     map (\<lambda>k. (drop k s, None)) (rev [1 ..< Suc (length (takeWhile P s))])"
| "rx_match (Times n P) s =
     (if n \<le> length s \<and> list_all P (take n s) then [(drop n s, None)] else [])"
| "rx_match (LazyStar P) s =
     map (\<lambda>k. (drop k s, None)) [0 ..< Suc (length (takeWhile P s))]"
| "rx_match (Grp r) s =
     map (\<lambda>m. (fst m, Some (take (length s - length (fst m)) s))) (rx_match r s)"

text \<open>
  \<open>re.search(pattern, url)\<close>: the first way to match at the leftmost position that has one.
  The result is \<open>None\<close> for no match and otherwise \<open>Some\<close> of \<open>match.group(1)\<close>.
\<close>

fun re_search :: "rx \<Rightarrow> string \<Rightarrow> string option option" where
  "re_search r [] = (case rx_match r [] of [] \<Rightarrow> None | m # _ \<Rightarrow> Some (snd m))"
| "re_search r (c # cs) =
     (case rx_match r (c # cs) of [] \<Rightarrow> re_search r cs | m # _ \<Rightarrow> Some (snd m))"

text \<open>The character classes: \<open>[a-zA-Z0-9_-]\<close>, \<open>[a-zA-Z0-9]\<close>, \<open>\d\<close>, \<open>\w\<close>, \<open>[^\/]\<close> and \<open>.\<close>.\<close>

definition ascii_alnum :: "char \<Rightarrow> bool" where
  "ascii_alnum c = (let n = (of_char c :: nat) in
     (48 \<le> n \<and> n \<le> 57) \<or> (65 \<le> n \<and> n \<le> 90) \<or> (97 \<le> n \<and> n \<le> 122))"

definition id_char :: "char \<Rightarrow> bool" where
  "id_char c = (ascii_alnum c \<or> c = CHR ''_'' \<or> c = CHR ''-'')"

definition digit :: "char \<Rightarrow> bool" where
  "digit c = (let n = (of_char c :: nat) in 48 \<le> n \<and> n \<le> 57)"

definition word_char :: "char \<Rightarrow> bool" where
  "word_char c = (isalnum c \<or> c = CHR ''_'')"

definition not_slash :: "char \<Rightarrow> bool" where
  "not_slash c = (c \<noteq> CHR ''/'')"

definition any_char :: "char \<Rightarrow> bool" where
  "any_char c = (c \<noteq> CHR 0x0A)"

fun seq :: "rx list \<Rightarrow> rx" where
  "seq [] = Lit []"
| "seq [r] = r"
| "seq (r # rs) = Seq r (seq rs)"

fun alt :: "rx list \<Rightarrow> rx" where
  "alt [] = Lit []"
| "alt [r] = r"
| "alt (r # rs) = Alt r (alt rs)"

text \<open>The prefixes shared by the patterns: \<open>(?:https?:\/\/)?\<close> and \<open>(?:www\.)?\<close>.\<close>

definition scheme_opt :: rx where
  "scheme_opt = Opt (seq [Lit ''http'', Opt (Lit ''s''), Lit ''://''])"

definition www_opt :: rx where
  "www_opt = Opt (Lit ''www.'')"

definition PATTERNS :: "(string \<times> rx list) list" where
  "PATTERNS =
    [(''youtube'',
       [seq [scheme_opt, www_opt, alt [Lit ''youtube.com'', Lit ''youtu.be''], Lit ''/'',
             Opt (Lit ''watch?v=''), Grp (Times 11 id_char)],
        seq [scheme_opt, www_opt, Lit ''youtube.com/shorts/'', Grp (Times 11 id_char)]]),
     (''facebook'',
       [seq [scheme_opt, Opt (alt [Lit ''www.'', Lit ''web.'', Lit ''m.'']), Lit ''facebook.com/'',
             alt [Lit ''watch/?v='', Lit ''video.php?v='', Lit ''video/video.php?v='',
                  Seq (LazyStar any_char) (Lit ''/videos/''), Lit ''reel/''],
             Grp (Plus digit)],
        seq [scheme_opt, Opt (alt [Lit ''www.'', Lit ''web.'', Lit ''m.'']), Lit ''fb.watch/'',
             Grp (Plus id_char)]]),
     (''tiktok'',
       [seq [scheme_opt, www_opt, Lit ''tiktok.com/@'', Plus not_slash, Lit ''/video/'',
             Grp (Plus digit)],
        seq [scheme_opt, www_opt, Lit ''vm.tiktok.com/'', Grp (Plus id_char)]]),
     (''instagram'',
       [seq [scheme_opt, www_opt, Lit ''instagram.com/'', alt [Lit ''p'', Lit ''reel''], Lit ''/'',
             Grp (Plus id_char)],
        seq [scheme_opt, www_opt, Lit ''instagram.com/tv/'', Grp (Plus id_char)]]),
     (''twitter'',
       [seq [scheme_opt, www_opt, Lit ''twitter.com/'', Plus word_char, Lit ''/status/'',
             Grp (Plus digit)],
        seq [scheme_opt, www_opt, Lit ''x.com/'', Plus word_char, Lit ''/status/'',
             Grp (Plus digit)]]),
     (''vimeo'',
       [seq [scheme_opt, www_opt, Lit ''vimeo.com/'', Grp (Plus digit)]]),
     (''dailymotion'',
       [seq [scheme_opt, www_opt, Lit ''dailymotion.com/video/'', Grp (Plus ascii_alnum)]])]"

section \<open>URL parser\<close>

text \<open>
  \<open>URLParser.identify_platform\<close>. The two library calls, \<open>validators.url\<close> and
  \<open>urlparse(url).netloc\<close>, are the parameters \<open>valid\<close> and \<open>netloc\<close>. The result \<open>None\<close> is
  Python's \<open>None\<close>.
\<close>

fun search_patterns :: "rx list \<Rightarrow> string \<Rightarrow> string option option" where
  "search_patterns [] url = None"
| "search_patterns (r # rs) url =
     (case re_search r url of Some g \<Rightarrow> Some g | None \<Rightarrow> search_patterns rs url)"

fun search_platforms :: "(string \<times> rx list) list \<Rightarrow> string \<Rightarrow> (string \<times> string option) option" where
  "search_platforms [] url = None"
| "search_platforms ((platform, patterns) # ps) url =
     (case search_patterns patterns url of
        Some g \<Rightarrow> Some (platform, g)
      | None \<Rightarrow> search_platforms ps url)"

definition base_domain :: "string \<Rightarrow> string" where
  "base_domain domain =
     (let parts = str_split domain ''.''
      in if length parts > 1 then str_join ''.'' (drop (length parts - 2) parts) else domain)"

definition identify_platform ::
  "(string \<Rightarrow> bool) \<Rightarrow> (string \<Rightarrow> string) \<Rightarrow> string \<Rightarrow> string option \<times> string option" where
  "identify_platform valid netloc url =
     (if \<not> valid url then (None, None)
      else case search_platforms PATTERNS url of
        Some (platform, video_id) \<Rightarrow> (Some platform, video_id)
      | None \<Rightarrow>
          (case find (\<lambda>platform. contains (base_domain (netloc url)) platform) (map fst PATTERNS) of
             Some platform \<Rightarrow> (Some platform, None)
           | None \<Rightarrow> (Some ''generic'', None)))"

text \<open>
  \<open>URLParser.normalize_url\<close>. Its first statement, \<open>if not platform: platform, _ =
  identify_platform(url)\<close>, is \<open>effective_platform\<close>: the test holds for \<open>None\<close> and for the
  empty string. In the shorts branch the index 1 exists, since \<open>'/shorts/'\<close> occurs in the URL
  (lemma \<open>split_contains_length\<close> below).
\<close>

definition effective_platform ::
  "(string \<Rightarrow> bool) \<Rightarrow> (string \<Rightarrow> string) \<Rightarrow> string \<Rightarrow> string option \<Rightarrow> string option" where
  "effective_platform valid netloc url platform =
     (if platform = None \<or> platform = Some [] then fst (identify_platform valid netloc url)
      else platform)"

definition normalize_url ::
  "(string \<Rightarrow> bool) \<Rightarrow> (string \<Rightarrow> string) \<Rightarrow> string \<Rightarrow> string option \<Rightarrow> string" where
  "normalize_url valid netloc url platform =
     (let platform = effective_platform valid netloc url platform
      in if platform = Some ''youtube'' \<and> contains url ''youtu.be''
         then ''https://www.youtube.com/watch?v='' @ hd (str_split (last (str_split url ''/'')) ''?'')
         else if platform = Some ''youtube'' \<and> contains url ''/shorts/''
         then ''https://www.youtube.com/watch?v='' @ hd (str_split (str_split url ''/shorts/'' ! 1) ''?'')
         else if \<not> (startswith url ''http://'' \<or> startswith url ''https://'')
         then ''https://'' @ url
         else url)"

text \<open>
  Instances of the two library functions, for evaluating the parser at concrete URLs: a string is
  taken as valid when it is \<open>http://\<close> or \<open>https://\<close> followed by a non-empty host, and the
  network location is the text between \<open>//\<close> and the next \<open>/\<close>, \<open>?\<close> or \<open>#\<close>. The theorems
  about the parser hold for every \<open>valid\<close> and \<open>netloc\<close>; these two stand for the libraries only
  where a closed example needs them.
\<close>

definition host_of :: "string \<Rightarrow> string" where
  "host_of rest = takeWhile (\<lambda>c. c \<noteq> CHR ''/'' \<and> c \<noteq> CHR ''?'' \<and> c \<noteq> CHR ''#'') rest"

definition validators_url :: "string \<Rightarrow> bool" where
  "validators_url url =
     (if startswith url ''https://'' then host_of (drop 8 url) \<noteq> []
      else if startswith url ''http://'' then host_of (drop 7 url) \<noteq> []
      else False)"

definition urlparse_netloc :: "string \<Rightarrow> string" where
  "urlparse_netloc url =
     (if startswith url ''https://'' then host_of (drop 8 url)
      else if startswith url ''http://'' then host_of (drop 7 url)
      else [])"

section \<open>Download manager\<close>

text \<open>
  A task is the dictionary built by \<open>create_task\<close>. The status strings are the seven literals the
  manager writes. Timestamps are the readings of \<open>datetime.now()\<close>, in microseconds, and the
  clock is an argument of each operation. \<open>None\<close> in an optional field is Python's \<open>None\<close>;
  \<open>t_title\<close> and \<open>t_thumbnail\<close> are keys the executor adds later, so their outer \<open>None\<close> means
  that the key is absent.
\<close>

datatype status = Created | Starting | Extracting | Downloading | Completed | Failed | Cancelled

type_synonym timestamp = int

record task =
  t_id :: string
  t_url :: string
  t_platform :: "string option"
  t_format_id :: "string option"
  t_status :: status
  t_progress :: int
  t_created_at :: timestamp
  t_started_at :: "timestamp option"
  t_completed_at :: "timestamp option"
  t_file_path :: "string option"
  t_error :: "string option"
  t_title :: "string option option"
  t_thumbnail :: "string option option"

text \<open>
  The results of a platform handler. \<open>extract_info\<close> returns a dictionary with the key
  \<open>success\<close>; \<open>i_error\<close> is \<open>None\<close> when the key \<open>error\<close> is absent, \<open>i_title\<close> is \<open>None\<close> when the
  key \<open>title\<close> is absent and \<open>Some None\<close> when it holds \<open>None\<close>, \<open>i_thumbnail\<close> is what
  \<open>info.get('thumbnail')\<close> returns. A handler call that raises is \<open>Inl\<close> of the exception's
  \<open>str\<close>.
\<close>

record info =
  i_success :: bool
  i_error :: "string option"
  i_title :: "string option option"
  i_thumbnail :: "string option"

record dl_result =
  r_success :: bool
  r_file_path :: "string option"
  r_error :: "string option"

record handler =
  extract_info :: "string \<Rightarrow> string + info"
  download :: "string \<Rightarrow> string \<Rightarrow> string option \<Rightarrow> string + dl_result"

text \<open>
  One executor thread runs \<open>_download_thread\<close>. Its program counter names the next step: each
  \<open>with self.tasks_lock\<close> block is one atomic step, and so is each handler call made outside
  the lock. \<open>th_calls\<close> records the handler calls the thread has made.
\<close>

datatype call = ExtractInfo string | Download string string "string option"

datatype pc =
    AtBegin
  | AtExtract string "string option"
  | AtExtractFailed info
  | AtMarkDownloading string "string option" info string
  | AtDownload string "string option" string
  | AtFinish dl_result
  | AtExcept string
  | Done
  | Crashed string

record thread =
  th_task :: string
  th_handler :: handler
  th_pc :: pc
  th_calls :: "call list"

text \<open>
  The manager: \<open>self.tasks\<close> is an association list in insertion order, as a Python dictionary
  is, and \<open>threads\<close> are the executor threads \<open>start_download\<close> has started.
\<close>

record manager =
  download_dir :: string
  tasks :: "(string \<times> task) list"
  threads :: "thread list"

text \<open>The manager after \<open>__init__\<close>: no task and no executor thread.\<close>

definition init_manager :: "string \<Rightarrow> manager" where
  "init_manager dir = \<lparr>download_dir = dir, tasks = [], threads = []\<rparr>"

definition create_task ::
  "string \<Rightarrow> timestamp \<Rightarrow> string \<Rightarrow> string option \<Rightarrow> string option \<Rightarrow> manager \<Rightarrow> string \<times> manager" where
  "create_task new_id now url platform format_id m =
     (new_id,
      m\<lparr>tasks := AList.update new_id
         \<lparr>t_id = new_id, t_url = url, t_platform = platform, t_format_id = format_id,
          t_status = Created, t_progress = 0, t_created_at = now, t_started_at = None,
          t_completed_at = None, t_file_path = None, t_error = None,
          t_title = None, t_thumbnail = None\<rparr> (tasks m)\<rparr>)"

text \<open>
  \<open>start_download\<close>: the membership test and the locked block that follows are taken as one
  step. The new thread is appended to \<open>threads\<close>.
\<close>

definition start_download :: "timestamp \<Rightarrow> string \<Rightarrow> handler \<Rightarrow> manager \<Rightarrow> bool \<times> manager" where
  "start_download now task_id platform_handler m =
     (case map_of (tasks m) task_id of
        None \<Rightarrow> (False, m)
      | Some t \<Rightarrow>
          (True,
           m\<lparr>tasks := AList.update task_id (t\<lparr>t_status := Starting, t_started_at := Some now\<rparr>) (tasks m),
             threads := threads m @
               [\<lparr>th_task = task_id, th_handler = platform_handler, th_pc = AtBegin, th_calls = []\<rparr>]\<rparr>))"

definition get_task :: "string \<Rightarrow> manager \<Rightarrow> task option" where
  "get_task task_id m = map_of (tasks m) task_id"

definition get_all_tasks :: "manager \<Rightarrow> task list" where
  "get_all_tasks m = map snd (tasks m)"

definition cancel_task :: "timestamp \<Rightarrow> string \<Rightarrow> manager \<Rightarrow> bool \<times> manager" where
  "cancel_task now task_id m =
     (case map_of (tasks m) task_id of
        None \<Rightarrow> (False, m)
      | Some t \<Rightarrow>
          if t_status t \<in> set [Created, Starting, Extracting, Downloading]
          then (True, m\<lparr>tasks := AList.update task_id
                          (t\<lparr>t_status := Cancelled, t_completed_at := Some now\<rparr>) (tasks m)\<rparr>)
          else (False, m))"

text \<open>
  \<open>timedelta.total_seconds()\<close> is the float nearest to the number of microseconds divided by
  \<open>10**6\<close>: Python's true division of two integers, rounded once to an IEEE double (53
  significant bits, ties to the even mantissa). A double is written as a pair \<open>(m, x)\<close> that
  stands for the number \<open>m * 2 ^ x\<close>. The quotients of this program are far from the subnormal
  and the overflow range of doubles, which is left out.

  \<open>rne a b\<close> is \<open>a / b\<close> rounded to the nearest integer, ties to even; \<open>bit_length\<close> is
  \<open>int.bit_length\<close>; \<open>pow2_le e a b\<close> says \<open>2 ^ e \<le> a / b\<close>; \<open>floor_log2 a b\<close> is the exponent
  \<open>e\<close> with \<open>2 ^ e \<le> a / b < 2 ^ (e + 1)\<close>, for positive \<open>a\<close> and \<open>b\<close>.
\<close>

definition rne :: "int \<Rightarrow> int \<Rightarrow> int" where
  "rne a b = (let q = a div b; r = a mod b
              in if 2 * r < b \<or> (2 * r = b \<and> even q) then q else q + 1)"

fun bit_length :: "nat \<Rightarrow> nat" where
  "bit_length n = (if n = 0 then 0 else Suc (bit_length (n div 2)))"

declare bit_length.simps [simp del]

definition pow2_le :: "int \<Rightarrow> int \<Rightarrow> int \<Rightarrow> bool" where
  "pow2_le e a b = (if 0 \<le> e then 2 ^ nat e * b \<le> a else b \<le> a * 2 ^ nat (- e))"

definition floor_log2 :: "int \<Rightarrow> int \<Rightarrow> int" where
  "floor_log2 a b =
     (let s = int (bit_length (nat a)) - int (bit_length (nat b))
      in if pow2_le s a b then s else s - 1)"

text \<open>The double nearest to \<open>a / b\<close> for positive \<open>a\<close> and \<open>b\<close>: the quotient is scaled by
  \<open>2 ^ k\<close> into the range of 53-bit mantissas and rounded there.\<close>

definition nearest_double :: "int \<Rightarrow> int \<Rightarrow> int \<times> int" where
  "nearest_double a b =
     (let k = 52 - floor_log2 a b
      in (if 0 \<le> k then rne (a * 2 ^ nat k) b else rne a (b * 2 ^ nat (- k)), - k))"

text \<open>\<open>a / b\<close> in Python for integers \<open>a\<close> and \<open>b > 0\<close>.\<close>

definition true_divide :: "int \<Rightarrow> int \<Rightarrow> int \<times> int" where
  "true_divide a b =
     (if a = 0 then (0, 0)
      else if 0 < a then nearest_double a b
      else (- fst (nearest_double (- a) b), snd (nearest_double (- a) b)))"

definition total_seconds :: "int \<Rightarrow> int \<times> int" where
  "total_seconds microseconds = true_divide microseconds 1000000"

text \<open>\<open>x > n\<close> for a double \<open>x\<close> and an integer \<open>n\<close>; Python compares the two numbers exactly.\<close>

definition double_gt_int :: "int \<times> int \<Rightarrow> int \<Rightarrow> bool" where
  "double_gt_int x n =
     (if 0 \<le> snd x then fst x * 2 ^ nat (snd x) > n else fst x > n * 2 ^ nat (- snd x))"

text \<open>
  \<open>clean_old_tasks\<close>: the loop over the snapshot of the keys. \<open>self.tasks[task_id]\<close> raises
  KeyError on a missing key, which ends the call with the deletions made so far. The age test is
  \<open>(current_time - completed_at).total_seconds() > max_age_hours * 3600\<close>, with the difference
  of the two timestamps in microseconds.
\<close>

definition old_enough :: "timestamp \<Rightarrow> int \<Rightarrow> task \<Rightarrow> bool" where
  "old_enough current_time max_age_hours t =
     (case t_completed_at t of
        None \<Rightarrow> False
      | Some completed_at \<Rightarrow>
          double_gt_int (total_seconds (current_time - completed_at)) (max_age_hours * 3600))"

fun clean_loop ::
  "timestamp \<Rightarrow> int \<Rightarrow> string list \<Rightarrow> (string \<times> task) list \<Rightarrow> nat \<Rightarrow>
   (string + nat) \<times> (string \<times> task) list" where
  "clean_loop current_time max_age_hours [] ts cleaned_count = (Inr cleaned_count, ts)"
| "clean_loop current_time max_age_hours (task_id # task_ids) ts cleaned_count =
     (case map_of ts task_id of
        None \<Rightarrow> (Inl task_id, ts)
      | Some t \<Rightarrow>
          if t_status t \<notin> set [Completed, Failed]
          then clean_loop current_time max_age_hours task_ids ts cleaned_count
          else if old_enough current_time max_age_hours t
          then clean_loop current_time max_age_hours task_ids (AList.delete task_id ts)
                 (cleaned_count + 1)
          else clean_loop current_time max_age_hours task_ids ts cleaned_count)"

definition clean_old_tasks :: "timestamp \<Rightarrow> int \<Rightarrow> manager \<Rightarrow> (string + nat) \<times> manager" where
  "clean_old_tasks current_time max_age_hours m =
     (let r = clean_loop current_time max_age_hours (map fst (tasks m)) (tasks m) 0
      in (fst r, m\<lparr>tasks := snd r\<rparr>))"

text \<open>The two tests a task passes in the loop body before it is deleted.\<close>

definition removable :: "timestamp \<Rightarrow> int \<Rightarrow> task \<Rightarrow> bool" where
  "removable current_time max_age_hours t =
     (t_status t \<in> set [Completed, Failed] \<and> old_enough current_time max_age_hours t)"

section \<open>Executor thread\<close>

text \<open>
  The output file name of \<open>_download_thread\<close>: the title is filtered to the characters that
  are alphanumeric or one of space, dot, underscore and hyphen, stripped, cut to 50 characters
  and followed by \<open>_\<close>, the integer \<open>int(time.time())\<close> and \<open>.mp4\<close>.
\<close>

definition clean_title :: "string \<Rightarrow> string" where
  "clean_title title = take 50 (strip (filter (\<lambda>c. isalnum c \<or> c \<in> set '' ._-'') title))"

definition output_filename :: "string \<Rightarrow> int \<Rightarrow> string" where
  "output_filename title timestamp = clean_title title @ ''_'' @ str_int timestamp @ ''.mp4''"

text \<open>\<open>os.path.join(a, b)\<close> on a POSIX system, for two components.\<close>

definition os_path_join :: "string \<Rightarrow> string \<Rightarrow> string" where
  "os_path_join a b =
     (if startswith b ''/'' then b
      else if a = [] \<or> last a = CHR ''/'' then a @ b
      else a @ ''/'' @ b)"

text \<open>
  \<open>self.tasks[task_id][k] = v\<close> raises KeyError when the task is gone; \<open>update_task\<close> is \<open>None\<close>
  then. \<open>key_error\<close> is the \<open>str\<close> of that exception for an id without quotes or escapes.
\<close>

definition update_task ::
  "string \<Rightarrow> (task \<Rightarrow> task) \<Rightarrow> (string \<times> task) list \<Rightarrow> (string \<times> task) list option" where
  "update_task task_id f ts =
     (case map_of ts task_id of None \<Rightarrow> None | Some t \<Rightarrow> Some (AList.update task_id (f t) ts))"

definition quoted :: "string \<Rightarrow> string" where
  "quoted s = [CHR 0x27] @ s @ [CHR 0x27]"

definition key_error :: "string \<Rightarrow> string" where
  "key_error k = quoted k"

text \<open>The \<open>str\<close> of the TypeError raised by iterating over \<open>None\<close>.\<close>

definition none_not_iterable :: string where
  "none_not_iterable = quoted ''NoneType'' @ '' object is not iterable''"

text \<open>
  One step of \<open>_download_thread\<close>. An exception raised inside the \<open>try\<close> block leads to
  \<open>AtExcept\<close>, the \<open>except\<close> block; a KeyError raised there ends the thread (\<open>Crashed\<close>).
  \<open>info.get('title', 'video')\<close> is \<open>'video'\<close> for an absent key and \<open>None\<close> for a key holding
  \<open>None\<close>, over which the cleaning loop cannot iterate. In \<open>AtFinish\<close> a successful result
  without the key \<open>file_path\<close> raises KeyError after the status has been written.
\<close>

definition thread_step ::
  "timestamp \<Rightarrow> int \<Rightarrow> string \<Rightarrow> thread \<Rightarrow> (string \<times> task) list \<Rightarrow> thread \<times> (string \<times> task) list" where
  "thread_step now unix_time dir th ts =
     (let task_id = th_task th; platform_handler = th_handler th in
      case th_pc th of
        AtBegin \<Rightarrow>
          (case map_of ts task_id of
             None \<Rightarrow> (th\<lparr>th_pc := AtExcept (key_error task_id)\<rparr>, ts)
           | Some t \<Rightarrow>
               (th\<lparr>th_pc := AtExtract (t_url t) (t_format_id t)\<rparr>,
                AList.update task_id (t\<lparr>t_status := Extracting\<rparr>) ts))
      | AtExtract url format_id \<Rightarrow>
          (let th1 = th\<lparr>th_calls := th_calls th @ [ExtractInfo url]\<rparr> in
           case extract_info platform_handler url of
             Inl e \<Rightarrow> (th1\<lparr>th_pc := AtExcept e\<rparr>, ts)
           | Inr info \<Rightarrow>
               if \<not> i_success info then (th1\<lparr>th_pc := AtExtractFailed info\<rparr>, ts)
               else
                 (case (case i_title info of None \<Rightarrow> Some ''video'' | Some v \<Rightarrow> v) of
                    None \<Rightarrow>
                      (th1\<lparr>th_pc := AtExcept none_not_iterable\<rparr>, ts)
                  | Some title \<Rightarrow>
                      (th1\<lparr>th_pc := AtMarkDownloading url format_id info
                                      (os_path_join dir (output_filename title unix_time))\<rparr>, ts)))
      | AtExtractFailed info \<Rightarrow>
          (case update_task task_id
                  (\<lambda>t. t\<lparr>t_status := Failed,
                          t_error := Some (case i_error info of
                                             None \<Rightarrow> ''Failed to extract video information''
                                           | Some e \<Rightarrow> e),
                          t_completed_at := Some now\<rparr>) ts of
             None \<Rightarrow> (th\<lparr>th_pc := AtExcept (key_error task_id)\<rparr>, ts)
           | Some ts' \<Rightarrow> (th\<lparr>th_pc := Done\<rparr>, ts'))
      | AtMarkDownloading url format_id info output_path \<Rightarrow>
          (case update_task task_id
                  (\<lambda>t. t\<lparr>t_status := Downloading,
                          t_title := Some (case i_title info of None \<Rightarrow> None | Some v \<Rightarrow> v),
                          t_thumbnail := Some (i_thumbnail info)\<rparr>) ts of
             None \<Rightarrow> (th\<lparr>th_pc := AtExcept (key_error task_id)\<rparr>, ts)
           | Some ts' \<Rightarrow> (th\<lparr>th_pc := AtDownload url format_id output_path\<rparr>, ts'))
      | AtDownload url format_id output_path \<Rightarrow>
          (let th1 = th\<lparr>th_calls := th_calls th @ [Download url output_path format_id]\<rparr> in
           case download platform_handler url output_path format_id of
             Inl e \<Rightarrow> (th1\<lparr>th_pc := AtExcept e\<rparr>, ts)
           | Inr result \<Rightarrow> (th1\<lparr>th_pc := AtFinish result\<rparr>, ts))
      | AtFinish result \<Rightarrow>
          (if r_success result then
             (case r_file_path result of
                None \<Rightarrow>
                  (case update_task task_id (\<lambda>t. t\<lparr>t_status := Completed\<rparr>) ts of
                     None \<Rightarrow> (th\<lparr>th_pc := AtExcept (key_error task_id)\<rparr>, ts)
                   | Some ts' \<Rightarrow> (th\<lparr>th_pc := AtExcept (key_error ''file_path'')\<rparr>, ts'))
              | Some p \<Rightarrow>
                  (case update_task task_id
                          (\<lambda>t. t\<lparr>t_status := Completed, t_file_path := Some p, t_progress := 100,
                                  t_completed_at := Some now\<rparr>) ts of
                     None \<Rightarrow> (th\<lparr>th_pc := AtExcept (key_error task_id)\<rparr>, ts)
                   | Some ts' \<Rightarrow> (th\<lparr>th_pc := Done\<rparr>, ts')))
           else
             (case update_task task_id
                     (\<lambda>t. t\<lparr>t_status := Failed,
                             t_error := Some (case r_error result of
                                                None \<Rightarrow> ''Download failed'' | Some e \<Rightarrow> e),
                             t_completed_at := Some now\<rparr>) ts of
                None \<Rightarrow> (th\<lparr>th_pc := AtExcept (key_error task_id)\<rparr>, ts)
              | Some ts' \<Rightarrow> (th\<lparr>th_pc := Done\<rparr>, ts')))
      | AtExcept e \<Rightarrow>
          (case update_task task_id
                  (\<lambda>t. t\<lparr>t_status := Failed, t_error := Some e, t_completed_at := Some now\<rparr>) ts of
             None \<Rightarrow> (th\<lparr>th_pc := Crashed (key_error task_id)\<rparr>, ts)
           | Some ts' \<Rightarrow> (th\<lparr>th_pc := Done\<rparr>, ts'))
      | Done \<Rightarrow> (th, ts)
      | Crashed e \<Rightarrow> (th, ts))"

text \<open>
  \<open>run_thread\<close> runs one thread alone, one step for each reading of the two clocks
  (\<open>datetime.now()\<close> and \<open>time.time()\<close>). \<open>step_thread\<close> lets thread number \<open>i\<close> of the manager
  take one step, so that other operations can come between two steps of a thread.
\<close>

fun run_thread ::
  "(timestamp \<times> int) list \<Rightarrow> string \<Rightarrow> thread \<Rightarrow> (string \<times> task) list \<Rightarrow> thread \<times> (string \<times> task) list" where
  "run_thread [] dir th ts = (th, ts)"
| "run_thread (clock # clocks) dir th ts =
     (let r = thread_step (fst clock) (snd clock) dir th ts in run_thread clocks dir (fst r) (snd r))"

definition step_thread :: "nat \<Rightarrow> timestamp \<Rightarrow> int \<Rightarrow> manager \<Rightarrow> manager" where
  "step_thread i now unix_time m =
     (if i < length (threads m)
      then let r = thread_step now unix_time (download_dir m) (threads m ! i) (tasks m)
           in m\<lparr>tasks := snd r, threads := (threads m)[i := fst r]\<rparr>
      else m)"

section \<open>Format processor\<close>

text \<open>
  \<open>_process_formats\<close> and \<open>_format_description\<close> of the platform handlers. A raw format is a
  dictionary of yt-dlp. For a key that is only read with \<open>fmt.get(k)\<close>, the field is what that
  call returns: \<open>None\<close> for an absent key and for a key holding \<open>None\<close>. The keys \<open>resolution\<close>,
  \<open>format_note\<close> and \<open>quality\<close> are also read with a default, which applies to an absent key
  only; for them \<open>None\<close> is the absent key and \<open>Some None\<close> a key holding \<open>None\<close>. \<open>fps\<close> and
  \<open>tbr\<close> are numbers that are only copied. Python's rendering \<open>f"{size_mb:.1f}"\<close> of
  \<open>filesize / (1024 * 1024)\<close> is the parameter \<open>size_mb_str\<close>.
\<close>

record 'n raw_format =
  f_format_id :: "string option"
  f_ext :: "string option"
  f_resolution :: "string option option"
  f_fps :: "'n option"
  f_vcodec :: "string option"
  f_acodec :: "string option"
  f_filesize :: "int option"
  f_format_note :: "string option option"
  f_quality :: "int option option"
  f_tbr :: "'n option"

record 'n format_entry =
  e_format_id :: "string option"
  e_ext :: "string option"
  e_resolution :: "string option"
  e_fps :: "'n option"
  e_vcodec :: "string option"
  e_acodec :: "string option"
  e_filesize :: "int option"
  e_format_note :: "string option"
  e_quality :: "int option"
  e_tbr :: "'n option"
  e_description :: string

text \<open>\<open>fmt.get(k)\<close> and \<open>fmt.get(k, d)\<close> on a key read with a default.\<close>

definition get :: "'a option option \<Rightarrow> 'a option" where
  "get v = (case v of None \<Rightarrow> None | Some x \<Rightarrow> x)"

definition get_or :: "'a option option \<Rightarrow> 'a \<Rightarrow> 'a option" where
  "get_or v d = (case v of None \<Rightarrow> Some d | Some x \<Rightarrow> x)"

text \<open>The truth value of \<open>fmt.get(k)\<close> for a string: it is not \<open>None\<close> and not empty.\<close>

definition truthy :: "string option \<Rightarrow> bool" where
  "truthy v = (case v of None \<Rightarrow> False | Some s \<Rightarrow> s \<noteq> [])"

text \<open>
  One part of the description: \<open>if fmt.get(k) and fmt.get(k) != excluded\<close>, the value is
  appended after a fixed prefix.
\<close>

definition part :: "string option \<Rightarrow> string \<Rightarrow> string \<Rightarrow> string list" where
  "part v excluded pre =
     (case v of
        None \<Rightarrow> []
      | Some s \<Rightarrow> if s \<noteq> [] \<and> s \<noteq> excluded then [pre @ s] else [])"

definition format_description :: "(int \<Rightarrow> string) \<Rightarrow> 'n raw_format \<Rightarrow> string" where
  "format_description size_mb_str fmt =
     str_join '' - ''
       (part (get (f_resolution fmt)) ''audio only'' [] @
        part (get (f_format_note fmt)) ''Default'' [] @
        part (f_vcodec fmt) ''none'' ''Video: '' @
        part (f_acodec fmt) ''none'' ''Audio: '' @
        part (f_ext fmt) [] ''.'' @
        (case f_filesize fmt of
           None \<Rightarrow> []
         | Some n \<Rightarrow> if n \<noteq> 0 then [size_mb_str n @ '' MB''] else []))"

definition format_entry :: "(int \<Rightarrow> string) \<Rightarrow> 'n raw_format \<Rightarrow> 'n format_entry" where
  "format_entry size_mb_str fmt =
     \<lparr>e_format_id = f_format_id fmt,
      e_ext = f_ext fmt,
      e_resolution = get_or (f_resolution fmt) ''unknown'',
      e_fps = f_fps fmt,
      e_vcodec = f_vcodec fmt,
      e_acodec = f_acodec fmt,
      e_filesize = f_filesize fmt,
      e_format_note = get_or (f_format_note fmt) [],
      e_quality = get_or (f_quality fmt) 0,
      e_tbr = f_tbr fmt,
      e_description = format_description size_mb_str fmt\<rparr>"

text \<open>The loop of \<open>_process_formats\<close>: an entry without a format id is skipped.\<close>

fun processed_formats :: "(int \<Rightarrow> string) \<Rightarrow> 'n raw_format list \<Rightarrow> 'n format_entry list" where
  "processed_formats size_mb_str [] = []"
| "processed_formats size_mb_str (fmt # formats) =
     (if \<not> truthy (f_format_id fmt) then processed_formats size_mb_str formats
      else format_entry size_mb_str fmt # processed_formats size_mb_str formats)"

text \<open>
  \<open>sorted(xs, key=k, reverse=True)\<close> for keys that are integers or \<open>None\<close>. A list of fewer than
  two elements is returned without any comparison. Otherwise every element is compared with
  another one, and a comparison with \<open>None\<close> on either side raises TypeError. When all keys are
  integers the sort is stable, and with \<open>reverse=True\<close> the elements with equal keys still keep
  their input order: that is the stable ascending sort by the negated key.
\<close>

datatype error = TypeError

definition sorted_reverse :: "('a \<Rightarrow> int option) \<Rightarrow> 'a list \<Rightarrow> error + 'a list" where
  "sorted_reverse k xs =
     (if length xs < 2 then Inr xs
      else if \<exists>x \<in> set xs. k x = None then Inl TypeError
      else Inr (sort_key (\<lambda>x. case k x of None \<Rightarrow> 0 | Some q \<Rightarrow> - q) xs))"

definition process_formats ::
  "(int \<Rightarrow> string) \<Rightarrow> 'n raw_format list \<Rightarrow> error + 'n format_entry list" where
  "process_formats size_mb_str formats =
     sorted_reverse e_quality (processed_formats size_mb_str formats)"

section \<open>Example data\<close>

text \<open>
  A handler whose calls succeed, as \<open>YouTubeHandler\<close> answers when yt-dlp returns the video,
  and one whose calls return the failure dictionary \<open>{'success': False, 'error': msg}\<close>.
\<close>

definition ok_handler :: "string \<Rightarrow> handler" where
  "ok_handler title =
     \<lparr>extract_info = (\<lambda>url. Inr \<lparr>i_success = True, i_error = None,
                                    i_title = Some (Some title), i_thumbnail = None\<rparr>),
      download = (\<lambda>url output_path format_id.
                    Inr \<lparr>r_success = True, r_file_path = Some output_path, r_error = None\<rparr>)\<rparr>"

definition failing_handler :: "string \<Rightarrow> handler" where
  "failing_handler msg =
     \<lparr>extract_info = (\<lambda>url. Inr \<lparr>i_success = False, i_error = Some msg,
                                    i_title = None, i_thumbnail = None\<rparr>),
      download = (\<lambda>url output_path format_id.
                    Inr \<lparr>r_success = False, r_file_path = None, r_error = Some msg\<rparr>)\<rparr>"

text \<open>
  A raw format that has only the keys \<open>format_id\<close> and \<open>quality\<close>: \<open>raw_format_with i q\<close>
  holds \<open>fmt.get('format_id') = i\<close> and has the key \<open>quality\<close> as \<open>q\<close> says (absent, holding
  \<open>None\<close>, or holding a number); \<open>raw_format_of i q\<close> is \<open>{'format_id': i, 'quality': q}\<close>.
\<close>

definition raw_format_with :: "string option \<Rightarrow> int option option \<Rightarrow> unit raw_format" where
  "raw_format_with i q =
     \<lparr>f_format_id = i, f_ext = None, f_resolution = None, f_fps = None, f_vcodec = None,
      f_acodec = None, f_filesize = None, f_format_note = None, f_quality = q, f_tbr = None\<rparr>"

definition raw_format_of :: "string \<Rightarrow> int \<Rightarrow> unit raw_format" where
  "raw_format_of i q = raw_format_with (Some i) (Some (Some q))"

text \<open>An executor thread about to call \<open>extract_info\<close>.\<close>

definition example_thread :: thread where
  "example_thread =
     \<lparr>th_task = ''t1'', th_handler = ok_handler ''My Video: Test!'',
      th_pc = AtExtract ''https://youtu.be/dQw4w9WgXcQ'' (Some ''22''), th_calls = []\<rparr>"

text \<open>
  A run of the manager: task \<open>t1\<close> is created and started with a handler that succeeds, its
  executor runs the first locked block, the task is cancelled, and the executor then runs its
  remaining four steps.
\<close>

definition example_created :: manager where
  "example_created =
     snd (create_task ''t1'' 100 ''https://www.youtube.com/watch?v=dQw4w9WgXcQ''
            (Some ''youtube'') None (init_manager ''downloads''))"

definition example_started :: manager where
  "example_started = snd (start_download 200 ''t1'' (ok_handler ''Clip'') example_created)"

definition example_extracting :: manager where
  "example_extracting = step_thread 0 300 1700000000 example_started"

definition example_cancelled :: manager where
  "example_cancelled = snd (cancel_task 400 ''t1'' example_extracting)"

definition example_finished :: manager where
  "example_finished =
     step_thread 0 800 1700000004 (step_thread 0 700 1700000003
       (step_thread 0 600 1700000002 (step_thread 0 500 1700000001 example_cancelled)))"

text \<open>An executor thread of task \<open>t1\<close> about to call \<open>extract_info\<close> of a failing handler.\<close>

definition failing_thread :: thread where
  "failing_thread =
     \<lparr>th_task = ''t1'', th_handler = failing_handler ''Video unavailable'',
      th_pc = AtExtract ''https://www.youtube.com/watch?v=dQw4w9WgXcQ'' None, th_calls = []\<rparr>"

text \<open>
  A store with one task in each of four statuses: \<open>a\<close> completed and \<open>c\<close> cancelled at time 0,
  \<open>b\<close> failed two hours later, \<open>d\<close> still downloading.
\<close>

definition task_in :: "string \<Rightarrow> status \<Rightarrow> timestamp option \<Rightarrow> task" where
  "task_in i s c =
     \<lparr>t_id = i, t_url = ''https://example.com/video'', t_platform = Some ''generic'',
      t_format_id = None, t_status = s, t_progress = 0, t_created_at = 0, t_started_at = Some 0,
      t_completed_at = c, t_file_path = None, t_error = None, t_title = None,
      t_thumbnail = None\<rparr>"

definition sweep_store :: manager where
  "sweep_store =
     \<lparr>download_dir = ''downloads'',
      tasks = [(''a'', task_in ''a'' Completed (Some 0)),
               (''b'', task_in ''b'' Failed (Some 7200000000)),
               (''c'', task_in ''c'' Cancelled (Some 0)),
               (''d'', task_in ''d'' Downloading None)],
      threads = []\<rparr>"

section \<open>The format processor\<close>

lemma processed_formats_eq:
  "processed_formats sz formats =
     map (format_entry sz)
       (filter (\<lambda>f. f_format_id f \<noteq> None \<and> f_format_id f \<noteq> Some []) formats)"
  by (induction formats) (auto simp: truthy_def split: option.splits)

lemma sort_key_desc:
  "sorted_wrt (\<lambda>a b. k a \<ge> k b) (sort_key (\<lambda>x. - k x) xs)" for k :: "'a \<Rightarrow> int"
proof -
  have "sorted (map (\<lambda>x. - k x) (sort_key (\<lambda>x. - k x) xs))"
    by (rule sorted_sort_key)
  then show ?thesis
    by (simp add: sorted_map)
qed

lemma sort_key_neg_stable:
  "filter (\<lambda>x. k x = q) (sort_key (\<lambda>x. - k x) xs) = filter (\<lambda>x. k x = q) xs"
  for k :: "'a \<Rightarrow> int"
proof -
  have "filter (\<lambda>x. - k x = - q) (sort_key (\<lambda>x. - k x) xs) = filter (\<lambda>x. - k x = - q) xs"
    by (rule sort_key_stable)
  then show ?thesis
    by simp
qed

lemma insort_key_agree:
  "f x = g x \<Longrightarrow> \<forall>y \<in> set ys. f y = g y \<Longrightarrow> insort_key f x ys = insort_key g x ys"
  by (induction ys) auto

lemma sort_key_agree: "\<forall>x \<in> set xs. f x = g x \<Longrightarrow> sort_key f xs = sort_key g xs"
proof (induction xs)
  case Nil
  then show ?case
    by simp
next
  case (Cons x xs)
  then have "sort_key f xs = sort_key g xs"
    by simp
  moreover have "insort_key f x (sort_key g xs) = insort_key g x (sort_key g xs)"
    using Cons.prems by (intro insort_key_agree) simp_all
  ultimately show ?case
    by simp
qed

text \<open>On a list without a \<open>None\<close> key the sort raises nothing.\<close>

lemma sorted_reverse_result:
  assumes "\<forall>x \<in> set xs. k x \<noteq> None"
  shows "sorted_reverse k xs = Inr (sort_key (\<lambda>x. - the (k x)) xs)"
proof (cases "length xs < 2")
  case True
  then have "xs = [] \<or> (\<exists>x. xs = [x])"
    by (cases xs) (auto simp: length_Suc_conv)
  then show ?thesis
    using True by (auto simp: sorted_reverse_def)
next
  case False
  have "(\<lambda>x. case k x of None \<Rightarrow> 0 | Some q \<Rightarrow> - q) x = (\<lambda>x. - the (k x)) x" if "x \<in> set xs" for x
    using assms that by (cases "k x") auto
  then have "sort_key (\<lambda>x. case k x of None \<Rightarrow> 0 | Some q \<Rightarrow> - q) xs = sort_key (\<lambda>x. - the (k x)) xs"
    by (intro sort_key_agree) auto
  then show ?thesis
    using False assms by (simp add: sorted_reverse_def)
qed

text \<open>
  On every list in which no kept entry has the key \<open>quality\<close> holding \<open>None\<close>, the format
  processor returns a list. It holds exactly the descriptors of the entries whose format id is
  neither \<open>None\<close> nor the empty string; it is in descending order of quality; and the
  descriptors of any one quality are in their input order.
\<close>

lemma process_formats_sorted_stable:
  assumes "\<forall>f \<in> set formats. f_format_id f \<noteq> None \<and> f_format_id f \<noteq> Some [] \<longrightarrow>
             f_quality f \<noteq> Some None"
  shows "\<exists>out. process_formats sz formats = Inr out
     \<and> mset out = mset (map (format_entry sz)
         (filter (\<lambda>f. f_format_id f \<noteq> None \<and> f_format_id f \<noteq> Some []) formats))
     \<and> sorted_wrt (\<lambda>a b. the (e_quality a) \<ge> the (e_quality b)) out
     \<and> (\<forall>q. filter (\<lambda>e. e_quality e = Some q) out =
             filter (\<lambda>e. e_quality e = Some q)
               (map (format_entry sz)
                  (filter (\<lambda>f. f_format_id f \<noteq> None \<and> f_format_id f \<noteq> Some []) formats)))"
proof -
  let ?kept = "map (format_entry sz)
      (filter (\<lambda>f. f_format_id f \<noteq> None \<and> f_format_id f \<noteq> Some []) formats)"
  have q: "\<forall>e \<in> set ?kept. e_quality e \<noteq> None"
    using assms by (auto simp: format_entry_def get_or_def split: option.splits)
  then have r: "process_formats sz formats = Inr (sort_key (\<lambda>e. - the (e_quality e)) ?kept)"
    by (simp add: process_formats_def processed_formats_eq sorted_reverse_result)
  have st: "filter (\<lambda>e. e_quality e = Some q) (sort_key (\<lambda>e. - the (e_quality e)) ?kept) =
      filter (\<lambda>e. e_quality e = Some q) ?kept" for q
  proof -
    have "filter (\<lambda>e. e_quality e = Some q) (sort_key (\<lambda>e. - the (e_quality e)) ?kept) =
        filter (\<lambda>e. the (e_quality e) = q) (sort_key (\<lambda>e. - the (e_quality e)) ?kept)"
      using q by (intro filter_cong) auto
    also have "\<dots> = filter (\<lambda>e. the (e_quality e) = q) ?kept"
      by (rule sort_key_neg_stable)
    also have "\<dots> = filter (\<lambda>e. e_quality e = Some q) ?kept"
      using q by (intro filter_cong) auto
    finally show ?thesis .
  qed
  show ?thesis
    using r st sort_key_desc [of "\<lambda>e. the (e_quality e)" ?kept] by simp
qed

text \<open>
  The list of qualities 5, 10, 10 with ids a, b, c, with an entry without id and one with an
  empty id among them, comes out as b, c, a.
\<close>

lemma process_formats_example:
  "map_sum id (map e_format_id)
     (process_formats sz
        [raw_format_of ''a'' 5, raw_format_with None (Some (Some 99)),
         raw_format_of ''b'' 10, raw_format_of [] 50, raw_format_of ''c'' 10]) =
   Inr [Some ''b'', Some ''c'', Some ''a'']"
  by (simp add: process_formats_def sorted_reverse_def raw_format_of_def raw_format_with_def
      truthy_def format_entry_def get_or_def)

text \<open>
  Claim C7 says that for every raw format list the format processor returns the kept
  descriptors in descending order of quality. On a list of two formats of which one has the key
  \<open>quality\<close> holding \<open>None\<close>, the sort compares \<open>None\<close> with a number and raises TypeError,
  so nothing is returned. With that key absent the default 0 applies and the same list comes
  out sorted.
\<close>

theorem process_formats_none_quality_raises:
  "process_formats sz [raw_format_with (Some ''hls-1'') (Some None), raw_format_of ''22'' 10] =
     Inl TypeError
   \<and> map_sum id (map e_format_id)
       (process_formats sz [raw_format_with (Some ''hls-1'') None, raw_format_of ''22'' 10]) =
     Inr [Some ''22'', Some ''hls-1'']"
  by (simp add: process_formats_def sorted_reverse_def raw_format_of_def raw_format_with_def
      truthy_def format_entry_def get_or_def)

section \<open>The output file name\<close>

lemma set_strip: "set (strip s) \<subseteq> set s"
proof -
  have "set (dropWhile isspace (rev (dropWhile isspace s))) \<subseteq> set (rev (dropWhile isspace s))"
    by (meson set_dropWhileD subsetI)
  also have "\<dots> \<subseteq> set s"
    using set_dropWhileD by fastforce
  finally show ?thesis
    by (simp add: strip_def)
qed

lemma clean_title_length: "length (clean_title title) \<le> 50"
  by (simp add: clean_title_def)

lemma clean_title_chars:
  assumes "c \<in> set (clean_title title)"
  shows "c \<in> set title \<and> (isalnum c \<or> c \<in> set '' ._-'')"
proof -
  from assms have "c \<in> set (strip (filter (\<lambda>c. isalnum c \<or> c \<in> set '' ._-'') title))"
    unfolding clean_title_def by (rule in_set_takeD)
  then have "c \<in> set (filter (\<lambda>c. isalnum c \<or> c \<in> set '' ._-'') title)"
    using set_strip by blast
  then show ?thesis
    by simp
qed

lemma isalnum_digit_char: "d < 10 \<Longrightarrow> isalnum (digit_char d)"
proof -
  assume "d < 10"
  then have "d \<in> {0, 1, 2, 3, 4, 5, 6, 7, 8, 9}"
    by auto
  then show ?thesis
    by (auto simp: isalnum_def digit_char_def)
qed

lemma str_nat_chars: "c \<in> set (str_nat n) \<Longrightarrow> isalnum c"
proof (induction n rule: str_nat.induct)
  case (1 n)
  then show ?case
    by (subst (asm) (2) str_nat.simps) (auto simp: isalnum_digit_char split: if_splits)
qed

lemma str_int_chars: "c \<in> set (str_int i) \<Longrightarrow> isalnum c \<or> c = CHR ''-''"
  by (auto simp: str_int_def dest: str_nat_chars split: if_splits)

lemma isalnum_mp4: "isalnum CHR ''m''" "isalnum CHR ''p''" "isalnum CHR ''4''"
  by (simp_all add: isalnum_def)

lemma output_filename_chars:
  "c \<in> set (output_filename title ts) \<Longrightarrow> isalnum c \<or> c \<in> set '' ._-''"
  using clean_title_chars [of c title] str_int_chars [of c ts] isalnum_mp4
  by (auto simp: output_filename_def)

text \<open>
  Claim C10. When \<open>extract_info\<close> succeeds with a title, the executor goes on with the output
  path \<open>os.path.join(download_dir, filename)\<close>, whatever format was requested, where the file
  name is the cleaned title, an underscore, the integer timestamp and \<open>.mp4\<close>; the cleaned title
  has at most 50 characters, each a character of the title that is alphanumeric or one of
  space, dot, underscore and hyphen; and the whole file name has only such characters.
\<close>

theorem output_filename_shape:
  assumes "th_pc th = AtExtract url format_id"
      and "extract_info (th_handler th) url = Inr info"
      and "i_success info"
      and "i_title info = Some (Some title)"
  shows "th_pc (fst (thread_step now unix_time dir th ts)) =
           AtMarkDownloading url format_id info (os_path_join dir (output_filename title unix_time))
       \<and> output_filename title unix_time = clean_title title @ ''_'' @ str_int unix_time @ ''.mp4''
       \<and> clean_title title = take 50 (strip (filter (\<lambda>c. isalnum c \<or> c \<in> set '' ._-'') title))
       \<and> length (clean_title title) \<le> 50
       \<and> (\<forall>c \<in> set (clean_title title). c \<in> set title \<and> (isalnum c \<or> c \<in> set '' ._-''))
       \<and> (\<forall>c \<in> set (output_filename title unix_time). isalnum c \<or> c \<in> set '' ._-'')"
proof -
  have "th_pc (fst (thread_step now unix_time dir th ts)) =
          AtMarkDownloading url format_id info (os_path_join dir (output_filename title unix_time))"
    using assms by (simp add: thread_step_def Let_def)
  moreover have "output_filename title unix_time =
      clean_title title @ ''_'' @ str_int unix_time @ ''.mp4''"
    by (simp add: output_filename_def)
  moreover have "clean_title title =
      take 50 (strip (filter (\<lambda>c. isalnum c \<or> c \<in> set '' ._-'') title))"
    by (simp add: clean_title_def)
  ultimately show ?thesis
    using clean_title_length clean_title_chars output_filename_chars by blast
qed

theorem output_filename_shape_witness:
  "th_pc (fst (thread_step 5 1700000000 ''downloads'' example_thread [])) =
     AtMarkDownloading ''https://youtu.be/dQw4w9WgXcQ'' (Some ''22'')
       \<lparr>i_success = True, i_error = None, i_title = Some (Some ''My Video: Test!''),
        i_thumbnail = None\<rparr>
       ''downloads/My Video Test_1700000000.mp4''"
proof -
  let ?info = "\<lparr>i_success = True, i_error = None, i_title = Some (Some ''My Video: Test!''),
        i_thumbnail = None\<rparr>"
  have ev: "os_path_join ''downloads'' (output_filename ''My Video: Test!'' 1700000000) =
      ''downloads/My Video Test_1700000000.mp4''"
    by (simp add: os_path_join_def output_filename_def clean_title_def strip_def isalnum_def
        isspace_def startswith_def str_int_def str_nat.simps digit_char_def)
  have h1: "th_pc example_thread = AtExtract ''https://youtu.be/dQw4w9WgXcQ'' (Some ''22'')"
    by (simp add: example_thread_def)
  have h2: "extract_info (th_handler example_thread) ''https://youtu.be/dQw4w9WgXcQ'' = Inr ?info"
    by (simp add: example_thread_def ok_handler_def)
  have h3: "i_success ?info"
    by simp
  have h4: "i_title ?info = Some (Some ''My Video: Test!'')"
    by simp
  from output_filename_shape [OF h1 h2 h3 h4, of 5 1700000000 "''downloads''" "[]"]
  have "th_pc (fst (thread_step 5 1700000000 ''downloads'' example_thread [])) =
     AtMarkDownloading ''https://youtu.be/dQw4w9WgXcQ'' (Some ''22'') ?info
       (os_path_join ''downloads'' (output_filename ''My Video: Test!'' 1700000000))"
    by (rule conjunct1)
  then show ?thesis
    unfolding ev .
qed

section \<open>The URL parser\<close>

lemmas rx_defs = PATTERNS_def scheme_opt_def www_opt_def startswith_def id_char_def
  ascii_alnum_def digit_def word_char_def not_slash_def any_char_def isalnum_def

text \<open>\<open>str_split\<close> never returns the empty list, and index 1 exists when the separator occurs.\<close>

lemma split_from_nonempty: "split_from h t cur s \<noteq> []"
  by (induction h t cur s rule: split_from.induct) auto

lemma split_from_contains_length:
  "contains s (h # t) \<Longrightarrow> 1 < length (split_from h t cur s)"
proof (induction h t cur s rule: split_from.induct)
  case (1 h t cur)
  then show ?case
    by simp
next
  case (2 h t cur c cs)
  show ?case
  proof (cases "c = h \<and> startswith cs t")
    case True
    then show ?thesis
      using split_from_nonempty [of h t "[]" "drop (length t) cs"]
      by (cases "split_from h t [] (drop (length t) cs)") auto
  next
    case False
    with "2.prems" have "contains cs (h # t)"
      by (auto simp: startswith_def)
    with False "2.IH"(2) show ?thesis
      by auto
  qed
qed

lemma split_contains_length:
  assumes "sep \<noteq> []" and "contains s sep"
  shows "1 < length (str_split s sep)"
proof -
  from assms(1) obtain h t where "sep = h # t"
    by (cases sep) auto
  with assms(2) show ?thesis
    using split_from_contains_length [of s h t "[]"] by (simp add: str_split_def)
qed

lemma platform_names:
  "map fst PATTERNS =
     [''youtube'', ''facebook'', ''tiktok'', ''instagram'', ''twitter'', ''vimeo'', ''dailymotion'']"
  by (simp add: PATTERNS_def)

lemma find_Some_member: "find P xs = Some x \<Longrightarrow> x \<in> set xs \<and> P x"
  by (induction xs) (auto split: if_splits)

lemma find_first:
  "p \<in> set xs \<Longrightarrow> P p \<Longrightarrow> \<forall>q \<in> set (takeWhile (\<lambda>q. q \<noteq> p) xs). \<not> P q \<Longrightarrow>
   find P xs = Some p"
  by (induction xs) auto

lemma normalize_has_scheme:
  "startswith (normalize_url valid netloc u p) ''http://''
   \<or> startswith (normalize_url valid netloc u p) ''https://''"
  by (simp add: normalize_url_def effective_platform_def startswith_def Let_def)

text \<open>
  Claim C9. For the URL \<open>https://youtu.be/dQw4w9WgXcQ\<close>, which the validator accepts,
  \<open>normalize_url\<close> with platform \<open>youtube\<close> returns
  \<open>https://www.youtube.com/watch?v=dQw4w9WgXcQ\<close>, and \<open>identify_platform\<close> returns the pair of
  \<open>youtube\<close> and \<open>dQw4w9WgXcQ\<close>.
\<close>

theorem youtu_be_scenario:
  assumes "valid ''https://youtu.be/dQw4w9WgXcQ''"
  shows "normalize_url valid netloc ''https://youtu.be/dQw4w9WgXcQ'' (Some ''youtube'') =
           ''https://www.youtube.com/watch?v=dQw4w9WgXcQ''
       \<and> identify_platform valid netloc ''https://youtu.be/dQw4w9WgXcQ'' =
           (Some ''youtube'', Some ''dQw4w9WgXcQ'')"
proof -
  have "search_platforms PATTERNS ''https://youtu.be/dQw4w9WgXcQ'' =
      Some (''youtube'', Some ''dQw4w9WgXcQ'')"
    by (simp add: rx_defs)
  then have "identify_platform valid netloc ''https://youtu.be/dQw4w9WgXcQ'' =
      (Some ''youtube'', Some ''dQw4w9WgXcQ'')"
    using assms by (simp add: identify_platform_def)
  moreover have "normalize_url valid netloc ''https://youtu.be/dQw4w9WgXcQ'' (Some ''youtube'') =
      ''https://www.youtube.com/watch?v=dQw4w9WgXcQ''"
    by (simp add: normalize_url_def effective_platform_def str_split_def startswith_def)
  ultimately show ?thesis
    by simp
qed

theorem youtu_be_scenario_witness:
  "validators_url ''https://youtu.be/dQw4w9WgXcQ''
   \<and> normalize_url validators_url urlparse_netloc ''https://youtu.be/dQw4w9WgXcQ'' (Some ''youtube'') =
       ''https://www.youtube.com/watch?v=dQw4w9WgXcQ''
   \<and> identify_platform validators_url urlparse_netloc ''https://youtu.be/dQw4w9WgXcQ'' =
       (Some ''youtube'', Some ''dQw4w9WgXcQ'')"
proof -
  have v: "validators_url ''https://youtu.be/dQw4w9WgXcQ''"
    by (simp add: validators_url_def startswith_def host_of_def)
  from youtu_be_scenario [of validators_url urlparse_netloc, OF v] v show ?thesis
    by (intro conjI) (rule v, erule conjunct1, erule conjunct2)
qed

text \<open>
  Claim C8, as stated for every string, fails. A string the validator rejects is answered with
  \<open>(None, None)\<close> before any pattern or domain is looked at, also when its domain names a
  platform. And for a valid URL only the last two labels of the host are searched, so a host
  such as \<open>www.youtube.co.uk\<close> is answered with \<open>generic\<close>.
\<close>

theorem identify_platform_invalid_counterexample:
  "search_platforms PATTERNS ''www.youtube.com'' = None
   \<and> identify_platform validators_url urlparse_netloc ''www.youtube.com'' = (None, None)
   \<and> search_platforms PATTERNS ''https://www.youtube.co.uk/feed'' = None
   \<and> urlparse_netloc ''https://www.youtube.co.uk/feed'' = ''www.youtube.co.uk''
   \<and> base_domain ''www.youtube.co.uk'' = ''co.uk''
   \<and> identify_platform validators_url urlparse_netloc ''https://www.youtube.co.uk/feed'' =
       (Some ''generic'', None)"
proof -
  have a: "search_platforms PATTERNS ''www.youtube.com'' = None"
    by code_simp
  have b: "identify_platform validators_url urlparse_netloc ''www.youtube.com'' = (None, None)"
    by (simp add: identify_platform_def validators_url_def startswith_def)
  have c: "search_platforms PATTERNS ''https://www.youtube.co.uk/feed'' = None"
    by code_simp
  have d: "urlparse_netloc ''https://www.youtube.co.uk/feed'' = ''www.youtube.co.uk''"
    by (simp add: urlparse_netloc_def host_of_def startswith_def)
  have e: "base_domain ''www.youtube.co.uk'' = ''co.uk''"
    by (simp add: base_domain_def str_split_def startswith_def)
  have v: "validators_url ''https://www.youtube.co.uk/feed''"
    by (simp add: validators_url_def host_of_def startswith_def)
  have f: "identify_platform validators_url urlparse_netloc ''https://www.youtube.co.uk/feed'' =
       (Some ''generic'', None)"
    unfolding identify_platform_def c d e platform_names using v by (simp add: startswith_def)
  show ?thesis
    using a b c d e f by simp
qed

text \<open>
  Claim C8, amended. A string the validator rejects yields \<open>(None, None)\<close>. For a string it
  accepts and on which no pattern matches, the video id is \<open>None\<close>; the platform is the first
  name, in the order of \<open>PATTERNS\<close>, that occurs in the last two dot-separated labels of the
  network location; it is \<open>generic\<close> when no name occurs there; and so it is always one of the
  seven platform names or \<open>generic\<close>.
\<close>

theorem identify_platform_fallback:
  "(\<not> valid url \<longrightarrow> identify_platform valid netloc url = (None, None))
   \<and> (valid url \<and> search_platforms PATTERNS url = None \<longrightarrow>
        snd (identify_platform valid netloc url) = None
      \<and> (\<forall>p \<in> set (map fst PATTERNS).
            contains (base_domain (netloc url)) p
            \<and> (\<forall>q \<in> set (takeWhile (\<lambda>q. q \<noteq> p) (map fst PATTERNS)).
                  \<not> contains (base_domain (netloc url)) q) \<longrightarrow>
            identify_platform valid netloc url = (Some p, None))
      \<and> ((\<forall>p \<in> set (map fst PATTERNS). \<not> contains (base_domain (netloc url)) p) \<longrightarrow>
           identify_platform valid netloc url = (Some ''generic'', None))
      \<and> fst (identify_platform valid netloc url) \<in>
           Some ` (set [''youtube'', ''facebook'', ''tiktok'', ''instagram'', ''twitter'', ''vimeo'',
                        ''dailymotion''] \<union> {''generic''}))"
proof (cases "valid url \<and> search_platforms PATTERNS url = None")
  case False
  then show ?thesis
    by (auto simp: identify_platform_def)
next
  case True
  let ?P = "\<lambda>platform. contains (base_domain (netloc url)) platform"
  have first: "identify_platform valid netloc url = (Some p, None)"
    if "p \<in> set (map fst PATTERNS)" and "?P p"
      and "\<forall>q \<in> set (takeWhile (\<lambda>q. q \<noteq> p) (map fst PATTERNS)). \<not> ?P q" for p
  proof -
    have "find ?P (map fst PATTERNS) = Some p"
      using that by (rule find_first)
    then show ?thesis
      using True by (simp add: identify_platform_def)
  qed
  have none: "identify_platform valid netloc url = (Some ''generic'', None)"
    if "\<forall>p \<in> set (map fst PATTERNS). \<not> ?P p"
  proof -
    have "find ?P (map fst PATTERNS) = None"
      using that by (simp add: find_None_iff)
    then show ?thesis
      using True by (simp add: identify_platform_def)
  qed
  have range: "snd (identify_platform valid netloc url) = None
      \<and> fst (identify_platform valid netloc url) \<in>
           Some ` (set [''youtube'', ''facebook'', ''tiktok'', ''instagram'', ''twitter'', ''vimeo'',
                        ''dailymotion''] \<union> {''generic''})"
  proof (cases "find ?P (map fst PATTERNS)")
    case None
    then show ?thesis
      using True by (simp add: identify_platform_def)
  next
    case (Some p)
    then have "p \<in> set (map fst PATTERNS)"
      using find_Some_member [OF Some] by simp
    then have "p \<in> set [''youtube'', ''facebook'', ''tiktok'', ''instagram'', ''twitter'',
        ''vimeo'', ''dailymotion'']"
      by (simp only: platform_names)
    then show ?thesis
      using True Some by (auto simp: identify_platform_def)
  qed
  show ?thesis
    using True first none range by blast
qed

theorem identify_platform_fallback_witness:
  "identify_platform validators_url urlparse_netloc
      ''https://www.facebook.com/watch?v=2018722278279349'' = (Some ''facebook'', None)
   \<and> identify_platform validators_url urlparse_netloc ''https://example.com/video'' =
       (Some ''generic'', None)
   \<and> identify_platform validators_url urlparse_netloc ''example.com/video'' = (None, None)"
proof -
  let ?fb = "''https://www.facebook.com/watch?v=2018722278279349''"
  let ?ex = "''https://example.com/video''"
  have v1: "validators_url ?fb" and v2: "validators_url ?ex"
    and v3: "\<not> validators_url ''example.com/video''"
    by (simp_all add: validators_url_def startswith_def host_of_def)
  have s1: "search_platforms PATTERNS ?fb = None"
    by code_simp
  have s2: "search_platforms PATTERNS ?ex = None"
    by code_simp
  have b1: "base_domain (urlparse_netloc ?fb) = ''facebook.com''"
    by (simp add: base_domain_def urlparse_netloc_def host_of_def startswith_def str_split_def)
  have b2: "base_domain (urlparse_netloc ?ex) = ''example.com''"
    by (simp add: base_domain_def urlparse_netloc_def host_of_def startswith_def str_split_def)
  have c1: "''facebook'' \<in> set (map fst PATTERNS)
      \<and> contains (base_domain (urlparse_netloc ?fb)) ''facebook''
      \<and> (\<forall>q \<in> set (takeWhile (\<lambda>q. q \<noteq> ''facebook'') (map fst PATTERNS)).
            \<not> contains (base_domain (urlparse_netloc ?fb)) q)"
    unfolding b1 platform_names by (simp add: startswith_def)
  have c2: "\<forall>p \<in> set (map fst PATTERNS). \<not> contains (base_domain (urlparse_netloc ?ex)) p"
    unfolding b2 platform_names by (simp add: startswith_def)
  have "identify_platform validators_url urlparse_netloc ?fb = (Some ''facebook'', None)"
    using identify_platform_fallback [of validators_url ?fb urlparse_netloc] v1 s1 c1 by blast
  moreover have "identify_platform validators_url urlparse_netloc ?ex = (Some ''generic'', None)"
    using identify_platform_fallback [of validators_url ?ex urlparse_netloc] v2 s2 c2 by blast
  moreover have "identify_platform validators_url urlparse_netloc ''example.com/video'' =
      (None, None)"
    using identify_platform_fallback [of validators_url "''example.com/video''" urlparse_netloc] v3
    by blast
  ultimately show ?thesis
    by simp
qed

text \<open>
  Claim C4, as stated, fails. Without a platform argument, \<open>youtu.be/dQw4w9WgXcQ\<close> only gets
  its scheme (the validator rejects it, so no platform is found), and the result is rewritten to
  the watch URL by the next call. With the platform \<open>youtube\<close> given, \<open>youtu.be\<close> is sent to a
  watch URL that the next call rewrites again.
\<close>

theorem normalize_url_not_idempotent_counterexample:
  "normalize_url validators_url urlparse_netloc
      (normalize_url validators_url urlparse_netloc ''youtu.be/dQw4w9WgXcQ'' None) None \<noteq>
     normalize_url validators_url urlparse_netloc ''youtu.be/dQw4w9WgXcQ'' None
   \<and> normalize_url validators_url urlparse_netloc
        (normalize_url validators_url urlparse_netloc ''youtu.be'' (Some ''youtube''))
        (Some ''youtube'') \<noteq>
       normalize_url validators_url urlparse_netloc ''youtu.be'' (Some ''youtube'')"
proof -
  have "normalize_url validators_url urlparse_netloc ''youtu.be/dQw4w9WgXcQ'' None =
      ''https://youtu.be/dQw4w9WgXcQ''"
    by (simp add: normalize_url_def effective_platform_def identify_platform_def validators_url_def startswith_def)
  moreover have "normalize_url validators_url urlparse_netloc ''https://youtu.be/dQw4w9WgXcQ'' None =
      ''https://www.youtube.com/watch?v=dQw4w9WgXcQ''"
    by (simp add: normalize_url_def effective_platform_def identify_platform_def validators_url_def host_of_def rx_defs
        str_split_def)
  moreover have "normalize_url validators_url urlparse_netloc ''youtu.be'' (Some ''youtube'') =
      ''https://www.youtube.com/watch?v=youtu.be''"
    by (simp add: normalize_url_def effective_platform_def str_split_def startswith_def)
  moreover have "normalize_url validators_url urlparse_netloc
      ''https://www.youtube.com/watch?v=youtu.be'' (Some ''youtube'') =
      ''https://www.youtube.com/watch?v=watch''"
    by (simp add: normalize_url_def effective_platform_def str_split_def startswith_def)
  ultimately show ?thesis
    by simp
qed

lemma startswith_append: "startswith a x \<Longrightarrow> startswith (a @ b) x"
  by (metis append_eq_conv_conj append.assoc append_take_drop_id startswith_def)

lemma contains_iff: "contains p x \<longleftrightarrow> (\<exists>i \<le> length p. startswith (drop i p) x)"
proof (induction p)
  case Nil
  then show ?case
    by (auto simp: startswith_def)
next
  case (Cons c cs)
  show ?case
  proof
    assume "contains (c # cs) x"
    then consider "startswith (c # cs) x" | "contains cs x"
      by auto
    then show "\<exists>i \<le> length (c # cs). startswith (drop i (c # cs)) x"
    proof cases
      case 1
      then have "startswith (drop 0 (c # cs)) x"
        by simp
      then show ?thesis
        by blast
    next
      case 2
      then obtain i where "i \<le> length cs" "startswith (drop i cs) x"
        using Cons.IH by blast
      then have "Suc i \<le> length (c # cs)" "startswith (drop (Suc i) (c # cs)) x"
        by simp_all
      then show ?thesis
        by blast
    qed
  next
    assume "\<exists>i \<le> length (c # cs). startswith (drop i (c # cs)) x"
    then obtain i where i: "i \<le> length (c # cs)" "startswith (drop i (c # cs)) x"
      by blast
    show "contains (c # cs) x"
    proof (cases i)
      case 0
      then show ?thesis
        using i by simp
    next
      case (Suc j)
      then have "j \<le> length cs" "startswith (drop j cs) x"
        using i by simp_all
      then show ?thesis
        using Cons.IH by auto
    qed
  qed
qed

lemma contains_prefix: "contains a x \<Longrightarrow> contains (a @ b) x"
proof -
  assume "contains a x"
  then obtain i where i: "i \<le> length a" "startswith (drop i a) x"
    using contains_iff by blast
  then have "startswith (drop i a @ b) x"
    by (intro startswith_append)
  then have "startswith (drop i (a @ b)) x"
    using i(1) by simp
  moreover have "i \<le> length (a @ b)"
    using i(1) by simp
  ultimately show ?thesis
    using contains_iff by blast
qed

text \<open>No piece of \<open>s.split(sep)\<close> contains the separator.\<close>

lemma split_from_pieces:
  assumes "\<forall>i < length cur. \<not> startswith (drop i (cur @ s)) (h # t)"
  shows "\<forall>p \<in> set (split_from h t cur s). \<not> contains p (h # t)"
  using assms
proof (induction h t cur s rule: split_from.induct)
  case (1 h t cur)
  have "\<not> contains cur (h # t)"
  proof
    assume "contains cur (h # t)"
    then obtain i where i: "i \<le> length cur" "startswith (drop i cur) (h # t)"
      using contains_iff by blast
    then have "i < length cur"
      by (cases "i = length cur") (auto simp: startswith_def)
    then show False
      using "1.prems" i(2) by simp
  qed
  then show ?case
    by simp
next
  case (2 h t cur c cs)
  have cur: "\<not> contains cur (h # t)"
  proof
    assume "contains cur (h # t)"
    then obtain i where i: "i \<le> length cur" "startswith (drop i cur) (h # t)"
      using contains_iff by blast
    then have l: "i < length cur"
      by (cases "i = length cur") (auto simp: startswith_def)
    have "startswith (drop i cur @ (c # cs)) (h # t)"
      using i(2) by (rule startswith_append)
    then have "startswith (drop i (cur @ c # cs)) (h # t)"
      using i(1) by simp
    then show False
      using "2.prems" l by blast
  qed
  show ?case
  proof (cases "c = h \<and> startswith cs t")
    case True
    have "\<forall>p \<in> set (split_from h t [] (drop (length t) cs)). \<not> contains p (h # t)"
      using True by (intro "2.IH"(1)) simp_all
    then show ?thesis
      using True cur by simp
  next
    case False
    have "\<forall>i < length (cur @ [c]). \<not> startswith (drop i ((cur @ [c]) @ cs)) (h # t)"
    proof (intro allI impI)
      fix i
      assume "i < length (cur @ [c])"
      then consider "i < length cur" | "i = length cur"
        by fastforce
      then show "\<not> startswith (drop i ((cur @ [c]) @ cs)) (h # t)"
      proof cases
        case 1
        then show ?thesis
          using "2.prems" by simp
      next
        case 2
        then have "drop i ((cur @ [c]) @ cs) = c # cs"
          by simp
        then show ?thesis
          using False by (auto simp: startswith_def)
      qed
    qed
    then have "\<forall>p \<in> set (split_from h t (cur @ [c]) cs). \<not> contains p (h # t)"
      using False by (intro "2.IH"(2)) simp_all
    then show ?thesis
      using False by auto
  qed
qed

lemma split_pieces:
  assumes "sep \<noteq> []" and "p \<in> set (str_split s sep)"
  shows "\<not> contains p sep"
proof -
  from assms(1) obtain h t where sep: "sep = h # t"
    by (cases sep) auto
  have "\<forall>p \<in> set (split_from h t [] s). \<not> contains p (h # t)"
    by (rule split_from_pieces) simp
  then show ?thesis
    using assms(2) sep by (simp add: str_split_def)
qed

text \<open>The first piece is a prefix of the string.\<close>

lemma split_from_hd: "\<exists>a b. s = a @ b \<and> hd (split_from h t cur s) = cur @ a"
proof (induction h t cur s rule: split_from.induct)
  case (1 h t cur)
  then show ?case
    by simp
next
  case (2 h t cur c cs)
  show ?case
  proof (cases "c = h \<and> startswith cs t")
    case True
    then have "hd (split_from h t cur (c # cs)) = cur @ []"
      by simp
    then show ?thesis
      by (metis append_Nil)
  next
    case False
    then obtain a b where "cs = a @ b" "hd (split_from h t (cur @ [c]) cs) = (cur @ [c]) @ a"
      using "2.IH"(2) by blast
    then have "c # cs = (c # a) @ b" "hd (split_from h t cur (c # cs)) = cur @ (c # a)"
      using False by simp_all
    then show ?thesis
      by blast
  qed
qed

lemma split_hd_prefix: "\<exists>b. s = hd (str_split s sep) @ b"
  using split_from_hd [of s "hd sep" "tl sep" "[]"] by (auto simp: str_split_def)

text \<open>The last piece of a split at one character is what follows its last occurrence.\<close>

lemma split_from_single_none: "h \<notin> set b \<Longrightarrow> split_from h [] cur b = [cur @ b]"
  by (induction b arbitrary: cur) (auto simp: startswith_def)

lemma split_from_single_last:
  "h \<notin> set b \<Longrightarrow> last (split_from h [] cur (a @ h # b)) = b"
proof (induction a arbitrary: cur)
  case Nil
  then show ?case
    by (simp add: startswith_def split_from_single_none)
next
  case (Cons c a)
  then show ?case
    using split_from_nonempty by (auto simp: startswith_def)
qed

lemma contains_single: "contains p [h] \<longleftrightarrow> h \<in> set p"
  by (induction p) (auto simp: startswith_def)


text \<open>
  The canonical prefix has no room for \<open>youtu.be\<close> or \<open>/shorts/\<close>: an occurrence in a watch
  URL lies in the video id.
\<close>

lemma watch_contains_youtu_be:
  "contains (''https://www.youtube.com/watch?v='' @ z) ''youtu.be'' = contains z ''youtu.be''"
  by (simp add: startswith_def)

lemma watch_contains_shorts:
  "contains (''https://www.youtube.com/watch?v='' @ z) ''/shorts/'' = contains z ''/shorts/''"
  by (simp add: startswith_def)

text \<open>A URL that the \<open>youtu.be\<close> branch rewrites is not its own rewriting.\<close>

lemma youtu_be_branch_moves:
  assumes "contains s ''youtu.be''"
  shows "''https://www.youtube.com/watch?v='' @ hd (str_split (last (str_split s ''/'')) ''?'') \<noteq> s"
proof
  let ?y = "last (str_split s ''/'')"
  let ?z = "hd (str_split ?y ''?'')"
  assume eq: "''https://www.youtube.com/watch?v='' @ ?z = s"
  have "?y \<in> set (str_split s ''/'')"
    using split_from_nonempty by (simp add: str_split_def)
  then have "\<not> contains ?y ''/''"
    by (intro split_pieces) simp_all
  then have y: "CHR ''/'' \<notin> set ?y"
    by (simp add: contains_single)
  obtain b where "?y = ?z @ b"
    using split_hd_prefix by blast
  then have z: "CHR ''/'' \<notin> set ?z"
    using y by (metis Un_iff set_append)
  have l: "last (split_from CHR ''/'' [] [] (''https://www.youtube.com'' @ CHR ''/'' # (''watch?v='' @ ?z))) =
      ''watch?v='' @ ?z"
    using z by (intro split_from_single_last) simp
  have e: "''https://www.youtube.com'' @ CHR ''/'' # (''watch?v='' @ ?z) = s"
    using eq by simp
  have "last (split_from CHR ''/'' [] [] s) = ''watch?v='' @ ?z"
    using l unfolding e .
  then have "?y = ''watch?v='' @ ?z"
    by (simp add: str_split_def)
  then have "?z = hd (str_split (''watch?v='' @ ?z) ''?'')"
    by simp
  also have "\<dots> = ''watch''"
    by (simp add: str_split_def startswith_def)
  finally have "s = ''https://www.youtube.com/watch?v=watch''"
    using eq by simp
  then show False
    using assms by (simp add: startswith_def)
qed

text \<open>Nor is one that the shorts branch rewrites.\<close>

lemma shorts_branch_moves:
  assumes "contains s ''/shorts/''"
  shows "''https://www.youtube.com/watch?v='' @ hd (str_split (str_split s ''/shorts/'' ! 1) ''?'') \<noteq> s"
proof
  let ?p = "str_split s ''/shorts/'' ! 1"
  let ?z = "hd (str_split ?p ''?'')"
  assume eq: "''https://www.youtube.com/watch?v='' @ ?z = s"
  have "1 < length (str_split s ''/shorts/'')"
    using assms by (intro split_contains_length) simp_all
  then have "?p \<in> set (str_split s ''/shorts/'')"
    by simp
  then have p: "\<not> contains ?p ''/shorts/''"
    by (intro split_pieces) simp_all
  obtain b where "?p = ?z @ b"
    using split_hd_prefix by blast
  then have "\<not> contains ?z ''/shorts/''"
    using p contains_prefix by metis
  then have "\<not> contains (''https://www.youtube.com/watch?v='' @ ?z) ''/shorts/''"
    by (subst watch_contains_shorts)
  then show False
    using assms eq by metis
qed


text \<open>The strings that \<open>normalize_url\<close> leaves as they are.\<close>

lemma normalize_url_fixed_iff:
  "normalize_url valid netloc s q = s \<longleftrightarrow>
     (startswith s ''http://'' \<or> startswith s ''https://'')
     \<and> \<not> (effective_platform valid netloc s q = Some ''youtube''
          \<and> (contains s ''youtu.be'' \<or> contains s ''/shorts/''))"
proof (cases "effective_platform valid netloc s q = Some ''youtube''")
  case False
  then show ?thesis
    by (auto simp: normalize_url_def Let_def)
next
  case yt: True
  show ?thesis
  proof (cases "contains s ''youtu.be''")
    case True
    then have "normalize_url valid netloc s q =
        ''https://www.youtube.com/watch?v='' @ hd (str_split (last (str_split s ''/'')) ''?'')"
      using yt by (simp add: normalize_url_def Let_def)
    then show ?thesis
      using yt True youtu_be_branch_moves [OF True] by simp
  next
    case no: False
    show ?thesis
    proof (cases "contains s ''/shorts/''")
      case True
      then have "normalize_url valid netloc s q =
          ''https://www.youtube.com/watch?v='' @ hd (str_split (str_split s ''/shorts/'' ! 1) ''?'')"
        using yt no by (simp add: normalize_url_def Let_def)
      then show ?thesis
        using yt True shorts_branch_moves [OF True] by simp
    next
      case False
      then show ?thesis
        using yt no by (auto simp: normalize_url_def Let_def)
    qed
  qed
qed

text \<open>
  Claim C4, amended. Normalising a second time with the same platform argument returns the
  normalised URL unchanged exactly when it is not the case that the second call works with the
  platform \<open>youtube\<close> (the argument when one is given, otherwise the platform identified from
  the normalised URL) and the normalised URL contains \<open>youtu.be\<close> or \<open>/shorts/\<close>. In particular
  \<open>normalize_url\<close> is idempotent on every input when a platform other than \<open>youtube\<close> is
  passed.
\<close>

theorem normalize_url_idempotent_iff:
  "(normalize_url valid netloc (normalize_url valid netloc u p) p = normalize_url valid netloc u p
      \<longleftrightarrow>
      \<not> (effective_platform valid netloc (normalize_url valid netloc u p) p = Some ''youtube''
         \<and> (contains (normalize_url valid netloc u p) ''youtu.be''
            \<or> contains (normalize_url valid netloc u p) ''/shorts/'')))
   \<and> (p \<noteq> None \<and> p \<noteq> Some [] \<and> p \<noteq> Some ''youtube'' \<longrightarrow>
        normalize_url valid netloc (normalize_url valid netloc u p) p =
          normalize_url valid netloc u p)"
proof -
  have iff: "normalize_url valid netloc (normalize_url valid netloc u p) p =
        normalize_url valid netloc u p \<longleftrightarrow>
      \<not> (effective_platform valid netloc (normalize_url valid netloc u p) p = Some ''youtube''
         \<and> (contains (normalize_url valid netloc u p) ''youtu.be''
            \<or> contains (normalize_url valid netloc u p) ''/shorts/''))"
    using normalize_has_scheme [of valid netloc u p]
    by (simp only: normalize_url_fixed_iff simp_thms)
  have "effective_platform valid netloc (normalize_url valid netloc u p) p = p"
    if "p \<noteq> None" and "p \<noteq> Some []"
    using that by (auto simp: effective_platform_def)
  then show ?thesis
    using iff by auto
qed

theorem normalize_url_idempotent_iff_witness:
  "normalize_url validators_url urlparse_netloc
      (normalize_url validators_url urlparse_netloc ''https://example.com/shorts/abc'' None) None =
     normalize_url validators_url urlparse_netloc ''https://example.com/shorts/abc'' None
   \<and> normalize_url validators_url urlparse_netloc
        (normalize_url validators_url urlparse_netloc ''youtu.be/dQw4w9WgXcQ'' (Some ''facebook''))
        (Some ''facebook'') =
       normalize_url validators_url urlparse_netloc ''youtu.be/dQw4w9WgXcQ'' (Some ''facebook'')"
proof -
  let ?u = "''https://example.com/shorts/abc''"
  have v: "validators_url ?u"
    by (simp add: validators_url_def startswith_def host_of_def)
  have sp: "search_platforms PATTERNS ?u = None"
    by code_simp
  have bd: "base_domain (urlparse_netloc ?u) = ''example.com''"
    by (simp add: base_domain_def urlparse_netloc_def host_of_def startswith_def str_split_def)
  have idp: "identify_platform validators_url urlparse_netloc ?u = (Some ''generic'', None)"
    unfolding identify_platform_def sp bd platform_names using v by (simp add: startswith_def)
  have r: "normalize_url validators_url urlparse_netloc ?u None = ?u"
    by (simp add: normalize_url_def effective_platform_def idp startswith_def)
  have "effective_platform validators_url urlparse_netloc
      (normalize_url validators_url urlparse_netloc ?u None) None \<noteq> Some ''youtube''"
    unfolding r by (simp add: effective_platform_def idp)
  then have a: "normalize_url validators_url urlparse_netloc
      (normalize_url validators_url urlparse_netloc ?u None) None =
      normalize_url validators_url urlparse_netloc ?u None"
    using normalize_url_idempotent_iff [of validators_url urlparse_netloc ?u None] by blast
  have "Some ''facebook'' \<noteq> None \<and> Some ''facebook'' \<noteq> Some [] \<and> Some ''facebook'' \<noteq> Some ''youtube''"
    by simp
  then have b: "normalize_url validators_url urlparse_netloc
        (normalize_url validators_url urlparse_netloc ''youtu.be/dQw4w9WgXcQ'' (Some ''facebook''))
        (Some ''facebook'') =
       normalize_url validators_url urlparse_netloc ''youtu.be/dQw4w9WgXcQ'' (Some ''facebook'')"
    using normalize_url_idempotent_iff
      [of validators_url urlparse_netloc "''youtu.be/dQw4w9WgXcQ''" "Some ''facebook''"]
    by blast
  show ?thesis
    using a b by (rule conjI)
qed

section \<open>The task store\<close>

lemmas example_defs = init_manager_def example_created_def example_started_def
  example_extracting_def create_task_def start_download_def step_thread_def thread_step_def
  cancel_task_def ok_handler_def update_task_def get_task_def Let_def

text \<open>
  Rounding to the nearest integer: \<open>rne A b\<close> lies between the integers below and above
  \<open>A / b\<close>, and it is the upper one when \<open>A / b\<close> is past the half.
\<close>

lemma rne_ge_div: "A div b \<le> rne A b"
  by (simp add: rne_def Let_def)

lemma rne_le_Suc_div: "rne A b \<le> A div b + 1"
  by (simp add: rne_def Let_def)

lemma rne_lower: "0 < b \<Longrightarrow> M * b \<le> A \<Longrightarrow> M \<le> rne A b"
proof -
  assume b: "0 < b" and h: "M * b \<le> A"
  have "(M * b) div b \<le> A div b"
    using h b by (rule zdiv_mono1)
  then have "M \<le> A div b"
    using b by simp
  then show ?thesis
    using rne_ge_div [of A b] by linarith
qed

lemma rne_upper: "0 < b \<Longrightarrow> A \<le> M * b \<Longrightarrow> rne A b \<le> M"
proof -
  assume b: "0 < b" and h: "A \<le> M * b"
  have eq: "A = A div b * b + A mod b"
    by simp
  have r: "0 \<le> A mod b" "A mod b < b"
    using b by simp_all
  show ?thesis
  proof (cases "A mod b = 0")
    case True
    then have "A div b * b \<le> M * b"
      using eq h by simp
    then have "A div b \<le> M"
      using b by simp
    moreover have "rne A b = A div b"
      using True b by (simp add: rne_def Let_def)
    ultimately show ?thesis
      by simp
  next
    case False
    then have "A div b * b < M * b"
      using eq h r by linarith
    then have "A div b < M"
      using b by simp
    then show ?thesis
      using rne_le_Suc_div [of A b] by linarith
  qed
qed

lemma rne_above: "0 < b \<Longrightarrow> (2 * M + 1) * b < 2 * A \<Longrightarrow> M + 1 \<le> rne A b"
proof -
  assume b: "0 < b" and h: "(2 * M + 1) * b < 2 * A"
  have "M * b \<le> A"
  proof -
    have "2 * (M * b) \<le> (2 * M + 1) * b"
      using b by (simp add: algebra_simps)
    then show ?thesis
      using h by linarith
  qed
  then have "(M * b) div b \<le> A div b"
    using b by (rule zdiv_mono1)
  then have q: "M \<le> A div b"
    using b by simp
  show ?thesis
  proof (cases "M = A div b")
    case False
    then show ?thesis
      using q rne_ge_div [of A b] by linarith
  next
    case True
    have "A div b * b + A mod b = A"
      by simp
    then have "2 * A = 2 * (M * b) + 2 * (A mod b)"
      unfolding True by linarith
    moreover have "(2 * M + 1) * b = 2 * (M * b) + b"
      by (simp add: algebra_simps)
    ultimately have "b < 2 * (A mod b)"
      using h by linarith
    then have "rne A b = A div b + 1"
      by (simp add: rne_def Let_def)
    then show ?thesis
      using True by simp
  qed
qed

lemma bit_length_bounds: "0 < n \<Longrightarrow> 2 ^ (bit_length n - 1) \<le> n \<and> n < 2 ^ bit_length n"
proof (induction n rule: bit_length.induct)
  case (1 n)
  show ?case
  proof (cases "n div 2 = 0")
    case True
    with "1.prems" have "n = 1"
      by (metis One_nat_def Suc_lessI div_less less_2_cases_iff not_less_iff_gr_or_eq div_eq_0_iff zero_neq_numeral)
    then show ?thesis
      by (simp add: bit_length.simps)
  next
    case False
    then have pos: "0 < n div 2"
      by simp
    from "1.IH" [OF _ pos] "1.prems"
    have IH: "2 ^ (bit_length (n div 2) - 1) \<le> n div 2" "n div 2 < 2 ^ bit_length (n div 2)"
      by auto
    have bl: "bit_length n = Suc (bit_length (n div 2))"
      using "1.prems" by (subst bit_length.simps) simp
    have blpos: "0 < bit_length (n div 2)"
      using pos by (subst bit_length.simps) simp
    have "2 ^ (bit_length n - 1) = 2 * 2 ^ (bit_length (n div 2) - 1)"
      using bl blpos by (cases "bit_length (n div 2)") simp_all
    also have "\<dots> \<le> 2 * (n div 2)"
      using IH(1) by simp
    also have "\<dots> \<le> n"
      by simp
    finally have lo: "2 ^ (bit_length n - 1) \<le> n" .
    have "n < 2 * (n div 2) + 2"
      by presburger
    also have "\<dots> \<le> 2 * 2 ^ bit_length (n div 2)"
      using IH(2) by simp
    finally have hi: "n < 2 ^ bit_length n"
      using bl by simp
    show ?thesis
      using lo hi by simp
  qed
qed

text \<open>The exponent found is not above the quotient, so the mantissa has at least 53 bits.\<close>

lemma floor_log2_lower:
  assumes "0 < a" and "0 < b"
  shows "pow2_le (floor_log2 a b) a b"
proof (cases "pow2_le (int (bit_length (nat a)) - int (bit_length (nat b))) a b")
  case True
  then show ?thesis
    by (simp add: floor_log2_def)
next
  case False
  let ?la = "bit_length (nat a)" and ?lb = "bit_length (nat b)"
  have e: "floor_log2 a b = int ?la - int ?lb - 1"
    using False by (simp add: floor_log2_def)
  have "2 ^ (?la - 1) \<le> nat a" and "nat b < 2 ^ ?lb"
    using bit_length_bounds [of "nat a"] bit_length_bounds [of "nat b"] assms by simp_all
  then have lo: "(2::int) ^ (?la - 1) \<le> a" and hi: "b < (2::int) ^ ?lb"
    using assms by (simp_all add: nat_le_iff nat_less_iff)
  have lapos: "0 < ?la"
    using assms(1) by (subst bit_length.simps) simp
  show ?thesis
  proof (cases "0 \<le> int ?la - int ?lb - 1")
    case True
    then have "?la - 1 = nat (int ?la - int ?lb - 1) + ?lb"
      by linarith
    then have "(2::int) ^ (?la - 1) = 2 ^ nat (int ?la - int ?lb - 1) * 2 ^ ?lb"
      by (simp add: power_add)
    moreover have "(2::int) ^ nat (int ?la - int ?lb - 1) * b
        \<le> 2 ^ nat (int ?la - int ?lb - 1) * 2 ^ ?lb"
      using hi by simp
    ultimately have "(2::int) ^ nat (int ?la - int ?lb - 1) * b \<le> a"
      using lo by linarith
    then show ?thesis
      using True by (simp add: e pow2_le_def)
  next
    case False
    then have "?lb = (?la - 1) + nat (- (int ?la - int ?lb - 1))"
      using lapos by linarith
    then have "(2::int) ^ ?lb = 2 ^ (?la - 1) * 2 ^ nat (- (int ?la - int ?lb - 1))"
      by (metis power_add)
    moreover have "(2::int) ^ (?la - 1) * 2 ^ nat (- (int ?la - int ?lb - 1))
        \<le> a * 2 ^ nat (- (int ?la - int ?lb - 1))"
      using lo by simp
    ultimately have "b \<le> a * 2 ^ nat (- (int ?la - int ?lb - 1))"
      using hi by linarith
    then show ?thesis
      using False by (simp add: e pow2_le_def)
  qed
qed

lemma nearest_double_mantissa:
  assumes "0 < a" and "0 < b"
  shows "2 ^ 52 \<le> fst (nearest_double a b)"
proof -
  let ?e = "floor_log2 a b"
  have p: "pow2_le ?e a b"
    using assms by (rule floor_log2_lower)
  show ?thesis
  proof (cases "0 \<le> 52 - ?e")
    case k: True
    have "(2::int) ^ 52 * b \<le> a * 2 ^ nat (52 - ?e)"
    proof (cases "0 \<le> ?e")
      case True
      then have "52 = nat (52 - ?e) + nat ?e"
        using k by linarith
      then have "(2::int) ^ 52 = 2 ^ nat (52 - ?e) * 2 ^ nat ?e"
        by (metis power_add)
      moreover have "(2::int) ^ nat (52 - ?e) * (2 ^ nat ?e * b) \<le> 2 ^ nat (52 - ?e) * a"
        using p True by (simp add: pow2_le_def)
      ultimately show ?thesis
        by (simp add: mult.assoc mult.commute)
    next
      case False
      then have "nat (52 - ?e) = 52 + nat (- ?e)"
        by linarith
      then have "(2::int) ^ nat (52 - ?e) = 2 ^ 52 * 2 ^ nat (- ?e)"
        by (simp add: power_add)
      moreover have "(2::int) ^ 52 * b \<le> 2 ^ 52 * (a * 2 ^ nat (- ?e))"
        using p False by (simp add: pow2_le_def)
      ultimately show ?thesis
        by (simp add: mult.assoc mult.commute mult.left_commute)
    qed
    then have "2 ^ 52 \<le> rne (a * 2 ^ nat (52 - ?e)) b"
      using assms(2) by (intro rne_lower) simp_all
    then show ?thesis
      using k by (simp add: nearest_double_def Let_def)
  next
    case k: False
    then have e: "0 \<le> ?e" "nat ?e = 52 + nat (- (52 - ?e))"
      by linarith+
    have "(2::int) ^ nat ?e = 2 ^ 52 * 2 ^ nat (- (52 - ?e))"
      by (subst e(2)) (simp add: power_add)
    then have "(2::int) ^ 52 * (b * 2 ^ nat (- (52 - ?e))) \<le> a"
      using p e(1) by (simp add: pow2_le_def mult.assoc mult.commute mult.left_commute)
    then have "2 ^ 52 \<le> rne a (b * 2 ^ nat (- (52 - ?e)))"
      using assms(2) by (intro rne_lower) simp_all
    then show ?thesis
      using k by (simp add: nearest_double_def Let_def)
  qed
qed

text \<open>
  For a bound \<open>N\<close> from 0 and below \<open>2 ^ 34\<close> seconds (about 544 years), the float comparison
  \<open>total_seconds() > N\<close> decides as the exact comparison of the microseconds does.
\<close>

lemma nearest_double_gt:
  assumes d: "0 < d" and N: "0 \<le> N" "N < 2 ^ 34"
  shows "double_gt_int (nearest_double d 1000000) N \<longleftrightarrow> N * 1000000 < d"
proof -
  let ?b = "1000000 :: int"
  let ?e = "floor_log2 d ?b"
  let ?k = "52 - ?e"
  have m: "2 ^ 52 \<le> fst (nearest_double d ?b)"
    using d by (intro nearest_double_mantissa) simp_all
  have p: "pow2_le ?e d ?b"
    using d by (intro floor_log2_lower) simp_all
  have x: "snd (nearest_double d ?b) = - ?k"
    by (simp add: nearest_double_def Let_def)
  show ?thesis
  proof (cases "19 \<le> ?k")
    case True
    then have v: "fst (nearest_double d ?b) = rne (d * 2 ^ nat ?k) ?b"
      by (simp add: nearest_double_def Let_def)
    have g: "double_gt_int (nearest_double d ?b) N \<longleftrightarrow>
        N * 2 ^ nat ?k < rne (d * 2 ^ nat ?k) ?b"
      using True x v by (simp add: double_gt_int_def)
    have big: "?b < 2 * 2 ^ nat ?k"
    proof -
      have "(2::int) ^ 19 \<le> 2 ^ nat ?k"
        using True by (intro power_increasing) simp_all
      then show ?thesis
        by simp
    qed
    show ?thesis
    proof
      assume "double_gt_int (nearest_double d ?b) N"
      then have gt: "N * 2 ^ nat ?k < rne (d * 2 ^ nat ?k) ?b"
        using g by simp
      show "N * 1000000 < d"
      proof (rule ccontr)
        assume "\<not> N * 1000000 < d"
        then have "d \<le> N * 1000000"
          by simp
        then have "d * 2 ^ nat ?k \<le> N * 1000000 * 2 ^ nat ?k"
          by (intro mult_right_mono) simp_all
        then have "d * 2 ^ nat ?k \<le> (N * 2 ^ nat ?k) * ?b"
          by (simp add: mult.assoc mult.commute mult.left_commute)
        then have "rne (d * 2 ^ nat ?k) ?b \<le> N * 2 ^ nat ?k"
          by (intro rne_upper) simp_all
        with gt show False
          by simp
      qed
    next
      assume "N * 1000000 < d"
      then have "N * 1000000 + 1 \<le> d"
        by simp
      then have "(N * 1000000 + 1) * 2 ^ nat ?k \<le> d * 2 ^ nat ?k"
        by (intro mult_right_mono) simp_all
      then have "2 * ((N * 2 ^ nat ?k) * ?b) + 2 * 2 ^ nat ?k \<le> 2 * (d * 2 ^ nat ?k)"
        by (simp add: algebra_simps)
      then have "(2 * (N * 2 ^ nat ?k) + 1) * ?b < 2 * (d * 2 ^ nat ?k)"
        using big by (simp add: algebra_simps)
      then have "N * 2 ^ nat ?k + 1 \<le> rne (d * 2 ^ nat ?k) ?b"
        by (intro rne_above) simp_all
      then show "double_gt_int (nearest_double d ?b) N"
        using g by simp
    qed
  next
    case False
    then have e: "34 \<le> ?e"
      by simp
    then have "(2::int) ^ 34 \<le> 2 ^ nat ?e"
      by (intro power_increasing) simp_all
    then have "(2::int) ^ 34 * ?b \<le> 2 ^ nat ?e * ?b"
      by simp
    also have "\<dots> \<le> d"
      using p e by (simp add: pow2_le_def)
    finally have "2 ^ 34 * ?b \<le> d" .
    moreover have "N * ?b < 2 ^ 34 * ?b"
      using N(2) by simp
    ultimately have rhs: "N * 1000000 < d"
      by linarith
    have lhs: "double_gt_int (nearest_double d ?b) N"
    proof (cases "0 \<le> ?k")
      case True
      have "(2::int) ^ nat ?k \<le> 2 ^ 18"
        using False True by (intro power_increasing) simp_all
      then have "N * 2 ^ nat ?k \<le> N * 2 ^ 18"
        using N(1) by (intro mult_left_mono) simp_all
      also have "\<dots> < 2 ^ 34 * 2 ^ 18"
        using N(2) by simp
      also have "\<dots> = (2::int) ^ 52"
        by simp
      finally have lt: "N * 2 ^ nat ?k < fst (nearest_double d ?b)"
        using m by linarith
      show ?thesis
      proof (cases "?k = 0")
        case True
        then show ?thesis
          using lt x by (simp add: double_gt_int_def)
      next
        case False
        then show ?thesis
          using lt x True by (simp add: double_gt_int_def)
      qed
    next
      case False
      have "fst (nearest_double d ?b) * 1 \<le> fst (nearest_double d ?b) * 2 ^ nat (- ?k)"
        using m by (intro mult_left_mono) simp_all
      moreover have "N < 2 ^ 52"
        using N(2) by simp
      ultimately have "N < fst (nearest_double d ?b) * 2 ^ nat (- ?k)"
        using m by linarith
      then show ?thesis
        using False x by (simp add: double_gt_int_def)
    qed
    show ?thesis
      using lhs rhs by simp
  qed
qed

lemma total_seconds_gt:
  assumes "0 \<le> N" and "N < 2 ^ 34"
  shows "double_gt_int (total_seconds d) N \<longleftrightarrow> N * 1000000 < d"
proof -
  consider "d = 0" | "0 < d" | "d < 0"
    by linarith
  then show ?thesis
  proof cases
    case 1
    then show ?thesis
      using assms by (simp add: total_seconds_def true_divide_def double_gt_int_def)
  next
    case 2
    then show ?thesis
      using nearest_double_gt [OF 2 assms] by (simp add: total_seconds_def true_divide_def)
  next
    case 3
    then have "2 ^ 52 \<le> fst (nearest_double (- d) 1000000)"
      by (intro nearest_double_mantissa) simp_all
    then have neg: "- fst (nearest_double (- d) 1000000) < 0"
      by simp
    have "\<not> double_gt_int
        (- fst (nearest_double (- d) 1000000), snd (nearest_double (- d) 1000000)) N"
    proof (cases "0 \<le> snd (nearest_double (- d) 1000000)")
      case True
      have "- fst (nearest_double (- d) 1000000) * 2 ^ nat (snd (nearest_double (- d) 1000000)) < 0"
        using neg by (simp add: mult_neg_pos)
      then show ?thesis
        using True assms(1) by (simp add: double_gt_int_def)
    next
      case False
      have "0 \<le> N * 2 ^ nat (- snd (nearest_double (- d) 1000000))"
        using assms(1) by simp
      then show ?thesis
        using False neg by (simp add: double_gt_int_def)
    qed
    then show ?thesis
      using 3 assms(1) by (simp add: total_seconds_def true_divide_def)
  qed
qed

lemmas double_defs = total_seconds_def true_divide_def nearest_double_def floor_log2_def
  pow2_le_def bit_length.simps rne_def double_gt_int_def Let_def

text \<open>
  Past that bound the float rounds: 600 years and one microsecond is not more than 600 years.
\<close>

lemma total_seconds_rounds:
  "\<not> double_gt_int (total_seconds (18921600000 * 1000000 + 1)) 18921600000
   \<and> 18921600000 * 1000000 < (18921600000 * 1000000 + 1 :: int)"
  by (simp add: double_defs)

lemma update_present_keys:
  "map_of al k = Some v \<Longrightarrow> map fst (AList.update k v' al) = map fst al"
  by (induction al) auto

lemma delete_filter: "AList.delete k ts = filter (\<lambda>p. fst p \<noteq> k) ts"
  by (induction ts) auto

lemma map_of_distinct_unique:
  "distinct (map fst ts) \<Longrightarrow> map_of ts k = Some t \<Longrightarrow> (k, t') \<in> set ts \<Longrightarrow> t' = t"
  by (metis map_of_is_SomeI option.inject)

text \<open>
  Claim C5. \<open>cancel_task\<close> returns true exactly when the task exists and its status is
  created, starting, extracting or downloading. Then the task gets the status cancelled and
  \<open>completed_at\<close>, nothing else in the manager changes, and a second cancel returns false and
  changes nothing. When it returns false the manager is unchanged.
\<close>

theorem cancel_task_spec:
  "(fst (cancel_task now task_id m) \<longleftrightarrow>
      (\<exists>t. map_of (tasks m) task_id = Some t \<and>
           t_status t \<in> {Created, Starting, Extracting, Downloading}))
   \<and> (\<forall>t. map_of (tasks m) task_id = Some t \<and> fst (cancel_task now task_id m) \<longrightarrow>
         map_of (tasks (snd (cancel_task now task_id m))) task_id =
           Some (t\<lparr>t_status := Cancelled, t_completed_at := Some now\<rparr>)
       \<and> (\<forall>k. k \<noteq> task_id \<longrightarrow>
             map_of (tasks (snd (cancel_task now task_id m))) k = map_of (tasks m) k)
       \<and> map fst (tasks (snd (cancel_task now task_id m))) = map fst (tasks m)
       \<and> threads (snd (cancel_task now task_id m)) = threads m
       \<and> download_dir (snd (cancel_task now task_id m)) = download_dir m
       \<and> cancel_task now' task_id (snd (cancel_task now task_id m)) =
           (False, snd (cancel_task now task_id m)))
   \<and> (\<not> fst (cancel_task now task_id m) \<longrightarrow> snd (cancel_task now task_id m) = m)"
proof (cases "map_of (tasks m) task_id")
  case None
  then show ?thesis
    by (simp add: cancel_task_def)
next
  case (Some t)
  show ?thesis
  proof (cases "t_status t \<in> {Created, Starting, Extracting, Downloading}")
    case True
    then show ?thesis
      using Some by (simp add: cancel_task_def update_conv' update_present_keys)
  next
    case False
    then show ?thesis
      using Some by (simp add: cancel_task_def)
  qed
qed

theorem cancel_task_spec_witness:
  "fst (cancel_task 400 ''t1'' example_extracting)
   \<and> cancel_task 450 ''t1'' (snd (cancel_task 400 ''t1'' example_extracting)) =
       (False, snd (cancel_task 400 ''t1'' example_extracting))
   \<and> cancel_task 400 ''t2'' example_extracting = (False, example_extracting)"
proof -
  have h: "\<exists>t. map_of (tasks example_extracting) ''t1'' = Some t
      \<and> t_status t \<in> {Created, Starting, Extracting, Downloading}"
    by (simp add: example_defs)
  have n: "\<not> (\<exists>t. map_of (tasks example_extracting) ''t2'' = Some t
      \<and> t_status t \<in> {Created, Starting, Extracting, Downloading})"
    by (simp add: example_defs)
  have a: "fst (cancel_task 400 ''t1'' example_extracting)"
    using cancel_task_spec [of 400 "''t1''" example_extracting 450] h by blast
  have b: "cancel_task 450 ''t1'' (snd (cancel_task 400 ''t1'' example_extracting)) =
       (False, snd (cancel_task 400 ''t1'' example_extracting))"
    using cancel_task_spec [of 400 "''t1''" example_extracting 450] h a by blast
  have c: "\<not> fst (cancel_task 400 ''t2'' example_extracting)
      \<and> snd (cancel_task 400 ''t2'' example_extracting) = example_extracting"
    using cancel_task_spec [of 400 "''t2''" example_extracting 450] n by blast
  then have "cancel_task 400 ''t2'' example_extracting = (False, example_extracting)"
    by (simp add: prod_eq_iff)
  with a b show ?thesis
    by simp
qed

text \<open>
  Claim C2, as stated, fails: \<open>start_download\<close> on a task that is already started returns
  true again, writes \<open>started_at\<close> again and starts a second executor thread for the same id.
\<close>

theorem start_download_twice_counterexample:
  "fst (start_download 250 ''t1'' (ok_handler ''Clip'') example_started) = True
   \<and> map th_task (threads example_started) = [''t1'']
   \<and> map th_task (threads (snd (start_download 250 ''t1'' (ok_handler ''Clip'') example_started))) =
       [''t1'', ''t1'']
   \<and> map_option t_started_at (get_task ''t1'' example_started) = Some (Some 200)
   \<and> map_option t_started_at
        (get_task ''t1'' (snd (start_download 250 ''t1'' (ok_handler ''Clip'') example_started))) =
       Some (Some 250)"
  by (simp add: example_defs)

text \<open>
  Claim C2, amended. \<open>start_download\<close> returns false and changes nothing when the task id
  does not exist. When the id exists, whatever the status of the task, it returns true, sets
  the status to starting and \<open>started_at\<close> to the current time, leaves the other tasks as
  they are and adds exactly one executor thread for the id, at its first step.
\<close>

theorem start_download_spec:
  "(map_of (tasks m) task_id = None \<longrightarrow> start_download now task_id h m = (False, m))
   \<and> (\<forall>t. map_of (tasks m) task_id = Some t \<longrightarrow>
         fst (start_download now task_id h m) = True
       \<and> map_of (tasks (snd (start_download now task_id h m))) task_id =
           Some (t\<lparr>t_status := Starting, t_started_at := Some now\<rparr>)
       \<and> (\<forall>k. k \<noteq> task_id \<longrightarrow>
             map_of (tasks (snd (start_download now task_id h m))) k = map_of (tasks m) k)
       \<and> threads (snd (start_download now task_id h m)) =
           threads m @ [\<lparr>th_task = task_id, th_handler = h, th_pc = AtBegin, th_calls = []\<rparr>])"
  by (simp add: start_download_def update_conv')

theorem start_download_spec_witness:
  "fst (start_download 200 ''t1'' (ok_handler ''Clip'') example_created) = True
   \<and> threads (snd (start_download 200 ''t1'' (ok_handler ''Clip'') example_created)) =
       [\<lparr>th_task = ''t1'', th_handler = ok_handler ''Clip'', th_pc = AtBegin, th_calls = []\<rparr>]
   \<and> start_download 200 ''t2'' (ok_handler ''Clip'') example_created = (False, example_created)"
proof -
  have h: "\<exists>t. map_of (tasks example_created) ''t1'' = Some t"
    by (simp add: example_defs)
  have n: "map_of (tasks example_created) ''t2'' = None"
    by (simp add: example_defs)
  have e: "threads example_created = []"
    by (simp add: example_defs)
  have "fst (start_download 200 ''t1'' (ok_handler ''Clip'') example_created) = True
      \<and> threads (snd (start_download 200 ''t1'' (ok_handler ''Clip'') example_created)) =
          threads example_created @
            [\<lparr>th_task = ''t1'', th_handler = ok_handler ''Clip'', th_pc = AtBegin, th_calls = []\<rparr>]"
    using start_download_spec [of example_created "''t1''" 200 "ok_handler ''Clip''"] h by blast
  moreover have "start_download 200 ''t2'' (ok_handler ''Clip'') example_created =
      (False, example_created)"
    using start_download_spec [of example_created "''t2''" 200 "ok_handler ''Clip''"] n by blast
  ultimately show ?thesis
    using e by simp
qed

text \<open>
  Claim C3, as stated, fails: with \<open>max_age = 0\<close> and all three finished tasks of the store
  older than the current time, the completed and the failed task are removed, but the cancelled
  one stays, and the count is 2.
\<close>

theorem clean_old_tasks_cancelled_counterexample:
  "map (\<lambda>p. (fst p, t_status (snd p), t_completed_at (snd p))) (tasks sweep_store) =
     [(''a'', Completed, Some 0), (''b'', Failed, Some 7200000000),
      (''c'', Cancelled, Some 0), (''d'', Downloading, None)]
   \<and> fst (clean_old_tasks 7200000001 0 sweep_store) = Inr 2
   \<and> map fst (tasks (snd (clean_old_tasks 7200000001 0 sweep_store))) = [''c'', ''d'']"
  by (simp add: sweep_store_def task_in_def clean_old_tasks_def old_enough_def double_defs)

text \<open>
  The loop of \<open>clean_old_tasks\<close> over keys \<open>ks\<close> of the store: it raises nothing, counts the
  removable tasks under those keys and keeps the rest in order.
\<close>

lemma clean_loop_result:
  assumes "distinct (map fst ts)" and "distinct ks" and "set ks \<subseteq> fst ` set ts"
  shows "clean_loop now age ks ts n =
     (Inr (n + length (filter (\<lambda>p. fst p \<in> set ks \<and> removable now age (snd p)) ts)),
      filter (\<lambda>p. \<not> (fst p \<in> set ks \<and> removable now age (snd p))) ts)"
  using assms
proof (induction ks arbitrary: ts n)
  case Nil
  then show ?case
    by simp
next
  case (Cons k ks)
  from Cons.prems obtain t where t: "map_of ts k = Some t"
    by (metis list.set_intros(1) map_of_eq_None_iff not_Some_eq subsetD)
  have uniq: "\<And>t'. (k, t') \<in> set ts \<Longrightarrow> t' = t"
    using Cons.prems(1) t map_of_distinct_unique by fast
  have kin: "(k, t) \<in> set ts"
    using t by (rule map_of_SomeD)
  show ?case
  proof (cases "removable now age t")
    case False
    have eq: "\<And>p. p \<in> set ts \<Longrightarrow>
        (fst p \<in> set (k # ks) \<and> removable now age (snd p)) =
        (fst p \<in> set ks \<and> removable now age (snd p))"
    proof -
      fix p
      assume "p \<in> set ts"
      then show "(fst p \<in> set (k # ks) \<and> removable now age (snd p)) =
          (fst p \<in> set ks \<and> removable now age (snd p))"
        using uniq [of "snd p"] False by (cases p) auto
    qed
    have f1: "filter (\<lambda>p. fst p \<in> set (k # ks) \<and> removable now age (snd p)) ts =
          filter (\<lambda>p. fst p \<in> set ks \<and> removable now age (snd p)) ts"
      using eq by (intro filter_cong) auto
    have f2: "filter (\<lambda>p. \<not> (fst p \<in> set (k # ks) \<and> removable now age (snd p))) ts =
          filter (\<lambda>p. \<not> (fst p \<in> set ks \<and> removable now age (snd p))) ts"
      using eq by (intro filter_cong) auto
    have "clean_loop now age (k # ks) ts n = clean_loop now age ks ts n"
      using t False by (auto simp: removable_def)
    also have "\<dots> =
        (Inr (n + length (filter (\<lambda>p. fst p \<in> set ks \<and> removable now age (snd p)) ts)),
         filter (\<lambda>p. \<not> (fst p \<in> set ks \<and> removable now age (snd p))) ts)"
      using Cons.prems by (intro Cons.IH) auto
    finally show ?thesis
      unfolding f1 f2 .
  next
    case True
    let ?ts = "AList.delete k ts"
    have d: "distinct (map fst ?ts)"
      using Cons.prems(1) by (rule distinct_delete)
    have s: "set ks \<subseteq> fst ` set ?ts"
    proof
      fix x
      assume x: "x \<in> set ks"
      with Cons.prems(2) have "x \<noteq> k"
        by auto
      moreover from x Cons.prems(3) obtain b where "(x, b) \<in> set ts"
        by fastforce
      ultimately have "(x, b) \<in> set ?ts"
        by (simp add: delete_filter)
      then show "x \<in> fst ` set ?ts"
        by force
    qed
    have step: "clean_loop now age (k # ks) ts n = clean_loop now age ks ?ts (n + 1)"
      using t True by (auto simp: removable_def)
    have IH: "clean_loop now age ks ?ts (n + 1) =
       (Inr (n + 1 + length (filter (\<lambda>p. fst p \<in> set ks \<and> removable now age (snd p)) ?ts)),
        filter (\<lambda>p. \<not> (fst p \<in> set ks \<and> removable now age (snd p))) ?ts)"
      using Cons.prems d s by (intro Cons.IH) auto
    have keep: "filter (\<lambda>p. \<not> (fst p \<in> set ks \<and> removable now age (snd p))) ?ts =
        filter (\<lambda>p. \<not> (fst p \<in> set (k # ks) \<and> removable now age (snd p))) ts"
      unfolding delete_filter filter_filter
      using uniq True by (intro filter_cong) auto
    have len: "length (filter (\<lambda>p. fst p \<in> set (k # ks) \<and> removable now age (snd p)) ts) =
        1 + length (filter (\<lambda>p. fst p \<in> set ks \<and> removable now age (snd p)) ?ts)"
    proof -
      have a: "length ts =
          length (filter (\<lambda>p. fst p \<in> set (k # ks) \<and> removable now age (snd p)) ts)
          + length (filter (\<lambda>p. \<not> (fst p \<in> set (k # ks) \<and> removable now age (snd p))) ts)"
        by (rule sum_length_filter_compl [symmetric])
      have b: "length ?ts =
          length (filter (\<lambda>p. fst p \<in> set ks \<and> removable now age (snd p)) ?ts)
          + length (filter (\<lambda>p. \<not> (fst p \<in> set ks \<and> removable now age (snd p))) ?ts)"
        by (rule sum_length_filter_compl [symmetric])
      have "filter (\<lambda>p. fst p = k) ts = [(k, t)]"
        using Cons.prems(1) kin
      proof (induction ts)
        case Nil
        then show ?case
          by simp
      next
        case (Cons a ts)
        then show ?case
          by (cases a) (auto simp: filter_empty_conv image_iff split: if_splits)
      qed
      then have c: "length ts = 1 + length ?ts"
        using sum_length_filter_compl [of "\<lambda>p. fst p = k" ts] by (simp add: delete_filter)
      show ?thesis
        using a b c keep by simp
    qed
    show ?thesis
      unfolding step IH keep len by simp
  qed
qed

text \<open>
  Claim C3, amended. On a store whose keys are distinct, as those of a dictionary are, and for
  \<open>max_age_hours\<close> from 0 up to 4772185 (so that \<open>max_age_hours * 3600\<close> is below \<open>2 ^ 34\<close>
  seconds and the float comparison is exact), \<open>clean_old_tasks\<close> raises nothing; it removes
  exactly the tasks whose status is completed or failed and whose \<open>completed_at\<close> is set and
  more than \<open>max_age_hours\<close> hours before the current time, and returns their number; every
  task in another status, the cancelled ones included, stays; with \<open>max_age_hours = 0\<close> the
  completed and failed tasks removed are those whose \<open>completed_at\<close> is before the current
  time.
\<close>

theorem clean_old_tasks_completed_failed:
  assumes "distinct (map fst (tasks m))" and "0 \<le> age" and "age * 3600 < 2 ^ 34"
  shows "clean_old_tasks now age m =
           (Inr (length (filter (\<lambda>p. removable now age (snd p)) (tasks m))),
            m\<lparr>tasks := filter (\<lambda>p. \<not> removable now age (snd p)) (tasks m)\<rparr>)
       \<and> (\<forall>t. removable now age t \<longleftrightarrow>
             t_status t \<in> {Completed, Failed}
             \<and> (\<exists>c. t_completed_at t = Some c \<and> now - c > age * 3600 * 1000000))
       \<and> (\<forall>t. removable now 0 t \<longleftrightarrow>
             t_status t \<in> {Completed, Failed} \<and> (\<exists>c. t_completed_at t = Some c \<and> c < now))
       \<and> (\<forall>p \<in> set (tasks m). t_status (snd p) \<notin> {Completed, Failed} \<longrightarrow>
             p \<in> set (tasks (snd (clean_old_tasks now age m))))"
proof -
  have "clean_loop now age (map fst (tasks m)) (tasks m) 0 =
     (Inr (0 + length (filter (\<lambda>p. fst p \<in> set (map fst (tasks m)) \<and> removable now age (snd p))
              (tasks m))),
      filter (\<lambda>p. \<not> (fst p \<in> set (map fst (tasks m)) \<and> removable now age (snd p))) (tasks m))"
    using assms(1) by (intro clean_loop_result) auto
  moreover have "filter (\<lambda>p. fst p \<in> set (map fst (tasks m)) \<and> removable now age (snd p)) (tasks m)
      = filter (\<lambda>p. removable now age (snd p)) (tasks m)"
    by (intro filter_cong) auto
  moreover have "filter (\<lambda>p. \<not> (fst p \<in> set (map fst (tasks m)) \<and> removable now age (snd p)))
        (tasks m)
      = filter (\<lambda>p. \<not> removable now age (snd p)) (tasks m)"
    by (intro filter_cong) auto
  ultimately have main: "clean_old_tasks now age m =
           (Inr (length (filter (\<lambda>p. removable now age (snd p)) (tasks m))),
            m\<lparr>tasks := filter (\<lambda>p. \<not> removable now age (snd p)) (tasks m)\<rparr>)"
    by (simp add: clean_old_tasks_def)
  have r: "removable now a t \<longleftrightarrow>
             t_status t \<in> {Completed, Failed}
             \<and> (\<exists>c. t_completed_at t = Some c \<and> now - c > a * 3600 * 1000000)"
    if "0 \<le> a" and "a * 3600 < 2 ^ 34" for a t
  proof (cases "t_completed_at t")
    case None
    then show ?thesis
      by (simp add: removable_def old_enough_def)
  next
    case (Some c)
    have "double_gt_int (total_seconds (now - c)) (a * 3600) \<longleftrightarrow> a * 3600 * 1000000 < now - c"
      using that by (intro total_seconds_gt) simp_all
    then show ?thesis
      using Some by (auto simp: removable_def old_enough_def)
  qed
  have keep: "\<forall>p \<in> set (tasks m). t_status (snd p) \<notin> {Completed, Failed} \<longrightarrow>
             p \<in> set (tasks (snd (clean_old_tasks now age m)))"
    unfolding main by (simp add: removable_def)
  show ?thesis
    using main r [OF assms(2,3)] r [of 0] keep by simp
qed

theorem clean_old_tasks_completed_failed_witness:
  "distinct (map fst (tasks sweep_store))
   \<and> fst (clean_old_tasks 7200000000 1 sweep_store) = Inr 1
   \<and> map fst (tasks (snd (clean_old_tasks 7200000000 1 sweep_store))) = [''b'', ''c'', ''d'']"
proof -
  have d: "distinct (map fst (tasks sweep_store))"
    by (simp add: sweep_store_def)
  have a: "(0::int) \<le> 1" and b: "(1::int) * 3600 < 2 ^ 34"
    by simp_all
  have "clean_old_tasks 7200000000 1 sweep_store =
      (Inr (length (filter (\<lambda>p. removable 7200000000 1 (snd p)) (tasks sweep_store))),
       sweep_store\<lparr>tasks := filter (\<lambda>p. \<not> removable 7200000000 1 (snd p)) (tasks sweep_store)\<rparr>)"
    using clean_old_tasks_completed_failed [OF d a b, of 7200000000] by (rule conjunct1)
  then show ?thesis
    using d by (simp add: sweep_store_def task_in_def removable_def old_enough_def double_defs)
qed

section \<open>The executor\<close>

lemma run_thread_done: "th_pc th = Done \<Longrightarrow> run_thread clocks dir th ts = (th, ts)"
  by (induction clocks) (simp_all add: thread_step_def)

text \<open>
  Claim C6. When \<open>extract_info\<close> returns a result whose \<open>success\<close> is false, the executor makes
  no change to the store in that step and goes to the failure block. That block, run on any
  store that still holds the task, gives the task the status failed, the error message of the
  result (or the default message when the result has none) and \<open>completed_at\<close>, and leaves
  \<open>file_path\<close> as it was. The thread is then done: further steps change nothing, and the only
  handler call it has added is the one to \<open>extract_info\<close>, so \<open>download\<close> is not called.
\<close>

theorem extract_failure_marks_failed:
  assumes "th_pc th = AtExtract url format_id"
      and "extract_info (th_handler th) url = Inr info"
      and "\<not> i_success info"
      and "map_of ts' (th_task th) = Some t"
  shows "thread_step now1 unix1 dir th ts =
           (th\<lparr>th_calls := th_calls th @ [ExtractInfo url], th_pc := AtExtractFailed info\<rparr>, ts)
       \<and> thread_step now2 unix2 dir (fst (thread_step now1 unix1 dir th ts)) ts' =
           (th\<lparr>th_calls := th_calls th @ [ExtractInfo url], th_pc := Done\<rparr>,
            AList.update (th_task th)
              (t\<lparr>t_status := Failed,
                 t_error := Some (case i_error info of
                                    None \<Rightarrow> ''Failed to extract video information''
                                  | Some e \<Rightarrow> e),
                 t_completed_at := Some now2\<rparr>) ts')
       \<and> map_option t_file_path
           (map_of (snd (thread_step now2 unix2 dir (fst (thread_step now1 unix1 dir th ts)) ts'))
              (th_task th)) = Some (t_file_path t)
       \<and> run_thread clocks dir
           (th\<lparr>th_calls := th_calls th @ [ExtractInfo url], th_pc := Done\<rparr>) ts'' =
           (th\<lparr>th_calls := th_calls th @ [ExtractInfo url], th_pc := Done\<rparr>, ts'')"
proof -
  have s1: "thread_step now1 unix1 dir th ts =
           (th\<lparr>th_calls := th_calls th @ [ExtractInfo url], th_pc := AtExtractFailed info\<rparr>, ts)"
    using assms(1-3) by (simp add: thread_step_def)
  have s2: "thread_step now2 unix2 dir
             (th\<lparr>th_calls := th_calls th @ [ExtractInfo url], th_pc := AtExtractFailed info\<rparr>) ts' =
           (th\<lparr>th_calls := th_calls th @ [ExtractInfo url], th_pc := Done\<rparr>,
            AList.update (th_task th)
              (t\<lparr>t_status := Failed,
                 t_error := Some (case i_error info of
                                    None \<Rightarrow> ''Failed to extract video information''
                                  | Some e \<Rightarrow> e),
                 t_completed_at := Some now2\<rparr>) ts')"
    using assms(4) by (simp add: thread_step_def update_task_def)
  have s3: "run_thread clocks dir
           (th\<lparr>th_calls := th_calls th @ [ExtractInfo url], th_pc := Done\<rparr>) ts'' =
           (th\<lparr>th_calls := th_calls th @ [ExtractInfo url], th_pc := Done\<rparr>, ts'')"
    by (rule run_thread_done) simp
  show ?thesis
    using s1 s2 s3 by (simp add: update_conv')
qed

theorem extract_failure_marks_failed_witness:
  "map_option (\<lambda>t. (t_status t, t_error t, t_completed_at t, t_file_path t))
     (map_of (snd (thread_step 500 1700000001 ''downloads''
                     (fst (thread_step 400 1700000000 ''downloads'' failing_thread
                             (tasks example_extracting)))
                     (tasks example_extracting))) ''t1'') =
     Some (Failed, Some ''Video unavailable'', Some 500, None)
   \<and> th_calls (fst (thread_step 500 1700000001 ''downloads''
                     (fst (thread_step 400 1700000000 ''downloads'' failing_thread
                             (tasks example_extracting)))
                     (tasks example_extracting))) =
       [ExtractInfo ''https://www.youtube.com/watch?v=dQw4w9WgXcQ'']"
proof -
  let ?url = "''https://www.youtube.com/watch?v=dQw4w9WgXcQ''"
  let ?info = "\<lparr>i_success = False, i_error = Some ''Video unavailable'', i_title = None,
      i_thumbnail = None\<rparr>"
  let ?t = "\<lparr>t_id = ''t1'', t_url = ?url, t_platform = Some ''youtube'', t_format_id = None,
      t_status = Extracting, t_progress = 0, t_created_at = 100, t_started_at = Some 200,
      t_completed_at = None, t_file_path = None, t_error = None, t_title = None,
      t_thumbnail = None\<rparr>"
  have h1: "th_pc failing_thread = AtExtract ?url None"
    by (simp add: failing_thread_def)
  have h2: "extract_info (th_handler failing_thread) ?url = Inr ?info"
    by (simp add: failing_thread_def failing_handler_def)
  have h3: "\<not> i_success ?info"
    by simp
  have h4: "map_of (tasks example_extracting) (th_task failing_thread) = Some ?t"
    by (simp add: example_defs failing_thread_def)
  have "thread_step 500 1700000001 ''downloads''
          (fst (thread_step 400 1700000000 ''downloads'' failing_thread (tasks example_extracting)))
          (tasks example_extracting) =
        (failing_thread\<lparr>th_calls := th_calls failing_thread @ [ExtractInfo ?url], th_pc := Done\<rparr>,
         AList.update (th_task failing_thread)
           (?t\<lparr>t_status := Failed,
               t_error := Some (case i_error ?info of
                                  None \<Rightarrow> ''Failed to extract video information''
                                | Some e \<Rightarrow> e),
               t_completed_at := Some 500\<rparr>) (tasks example_extracting))"
    using extract_failure_marks_failed [OF h1 h2 h3 h4,
        of 400 1700000000 "''downloads''" "tasks example_extracting" 500 1700000001 "[]" "[]"]
    by (elim conjE)
  then show ?thesis
    by (simp add: update_conv' failing_thread_def)
qed

text \<open>
  Claim C1 says that a task in a terminal status never changes its status again, and in
  particular that a task cancelled while its executor runs stays cancelled. The executor does
  not look at the status before it writes: in the run below \<open>cancel_task\<close> returns true and the
  task is cancelled, and the next locked blocks of the executor set it to downloading and then
  to completed, with a file path.
\<close>

theorem cancelled_task_completed_by_executor:
  "map_option t_status (get_task ''t1'' example_extracting) = Some Extracting
   \<and> fst (cancel_task 400 ''t1'' example_extracting) = True
   \<and> map_option t_status (get_task ''t1'' example_cancelled) = Some Cancelled
   \<and> map_option t_status
        (get_task ''t1'' (step_thread 0 600 1700000002
                            (step_thread 0 500 1700000001 example_cancelled))) = Some Downloading
   \<and> map_option t_status (get_task ''t1'' example_finished) = Some Completed
   \<and> map_option t_file_path (get_task ''t1'' example_finished) =
       Some (Some ''downloads/Clip_1700000001.mp4'')
   \<and> map th_pc (threads example_finished) = [Done]"
  by (simp add: example_defs example_cancelled_def example_finished_def os_path_join_def
      output_filename_def clean_title_def strip_def isalnum_def isspace_def startswith_def
      str_int_def str_nat.simps digit_char_def)

end
